theory Spec2Isabelle
  imports Main "HOL-Library.FSet" "HOL-Library.Product_Lexorder" "HOL-Library.Option_ord"
    "HOL-Library.Multiset"
begin

section \<open>The data the analyzer reads\<close>

text \<open>
  The embedding follows \<^verbatim>\<open>libsolidity/analysis/ControlFlowAnalyzer.cpp\<close>. The analyzer
  reads a control-flow graph whose nodes hold variable occurrences; it never changes the
  graph or the syntax tree. Pointers are modelled by what the code does with them:
  \<^item> \<^verbatim>\<open>CFGNode const*\<close> is a key of the map \<^verbatim>\<open>nodeInfos\<close>: a node pointer is a
    natural number and the graph is a store from node pointers to nodes;
  \<^item> \<^verbatim>\<open>VariableDeclaration const*\<close> is a key of \<^verbatim>\<open>unassignedVariables\<close>: a
    declaration pointer is a natural number and the declarations live in a store;
  \<^item> \<^verbatim>\<open>VariableOccurrence const*\<close> is the address of an element of the vector
    \<^verbatim>\<open>variableOccurrences\<close> of a node: the pair of the node pointer and the position;
  \<^item> the syntax node behind \<^verbatim>\<open>occurrence()\<close> is only tested for null and read
    (\<^verbatim>\<open>id()\<close>, \<^verbatim>\<open>location()\<close>), so it is held by value, \<open>None\<close> for the null pointer.
\<close>

text \<open>
  \<^verbatim>\<open>SourceLocation\<close> is declared outside the sources at hand; the analyzer only passes
  locations on to the reporter.
\<close>

record SourceLocation =
  loc_start :: int
  loc_end :: int
  loc_source :: string

record ASTNode =
  node_id :: int
  node_location :: SourceLocation

text \<open>
  Of a variable declaration the analyzer reads \<^verbatim>\<open>id()\<close>, \<^verbatim>\<open>location()\<close> and
  \<^verbatim>\<open>type()->dataStoredIn(DataLocation::Storage)\<close>.
\<close>

record VariableDeclaration =
  decl_id :: int
  decl_location :: SourceLocation
  dataStoredInStorage :: bool

type_synonym Declarations = "nat \<Rightarrow> VariableDeclaration"

text \<open>
  The four kinds are those of the \<^verbatim>\<open>switch\<close>; the order of the constructors carries no
  meaning. The accessor \<^verbatim>\<open>declaration()\<close> is the field \<open>declarationPtr\<close>.
\<close>

datatype Kind = Declaration | Access | Assignment | InlineAssembly

record VariableOccurrence =
  kind :: Kind
  declarationPtr :: nat
  occurrence :: "ASTNode option"

record CFGNode =
  variableOccurrences :: "VariableOccurrence list"
  exits :: "nat list"

type_synonym CFG = "nat \<Rightarrow> CFGNode"

type_synonym OccurrencePtr = "nat \<times> nat"

text \<open>
  Dereferencing an occurrence pointer. The analyzer only keeps pointers that it took
  from a position of the vector, so the position is in range wherever this is used.
\<close>

definition occurrenceAt :: "CFG \<Rightarrow> OccurrencePtr \<Rightarrow> VariableOccurrence" where
  "occurrenceAt cfg p = variableOccurrences (cfg (fst p)) ! snd p"

section \<open>NodeInfo and the worklist loop\<close>

record NodeInfo =
  unassignedVariables :: "nat fset"
  uninitializedVariableAccesses :: "OccurrencePtr fset"

definition emptyNodeInfo :: NodeInfo where
  "emptyNodeInfo = \<lparr>unassignedVariables = {||}, uninitializedVariableAccesses = {||}\<rparr>"

text \<open>
  \<^verbatim>\<open>propagateFrom\<close> changes the receiver and returns whether one of its two sets grew,
  by comparing sizes; the model returns the flag and the new receiver.
\<close>

definition propagateFrom :: "NodeInfo \<Rightarrow> NodeInfo \<Rightarrow> bool \<times> NodeInfo" where
  "propagateFrom this entryNode =
     (let previousUnassignedVariables = fcard (unassignedVariables this);
          previousUninitializedVariableAccessess = fcard (uninitializedVariableAccesses this);
          this' = \<lparr>unassignedVariables =
                     unassignedVariables this |\<union>| unassignedVariables entryNode,
                   uninitializedVariableAccesses =
                     uninitializedVariableAccesses this |\<union>| uninitializedVariableAccesses entryNode\<rparr>
      in (fcard (unassignedVariables this') > previousUnassignedVariables \<or>
          fcard (uninitializedVariableAccesses this') > previousUninitializedVariableAccessess,
          this'))"

text \<open>
  \<^verbatim>\<open>map<CFGNode const*, NodeInfo> nodeInfos\<close> is a partial map; \<^verbatim>\<open>nodeInfos[n]\<close>
  default-constructs the entry of a key that is not there yet. \<open>infoAt\<close> is the value
  that \<^verbatim>\<open>nodeInfos[n]\<close> denotes.
\<close>

type_synonym NodeInfos = "nat \<rightharpoonup> NodeInfo"

definition infoAt :: "NodeInfos \<Rightarrow> nat \<Rightarrow> NodeInfo" where
  "infoAt nodeInfos n = (case nodeInfos n of None \<Rightarrow> emptyNodeInfo | Some i \<Rightarrow> i)"

text \<open>The body of the \<^verbatim>\<open>switch\<close> for the occurrence at address \<open>p\<close>.\<close>

definition applyOccurrence ::
  "Declarations \<Rightarrow> OccurrencePtr \<Rightarrow> VariableOccurrence \<Rightarrow> NodeInfo \<Rightarrow> NodeInfo" where
  "applyOccurrence decls p variableOccurrence nodeInfo =
     (case kind variableOccurrence of
        Assignment \<Rightarrow>
          nodeInfo\<lparr>unassignedVariables :=
            unassignedVariables nodeInfo |-| {|declarationPtr variableOccurrence|}\<rparr>
      | InlineAssembly \<Rightarrow>
          nodeInfo\<lparr>unassignedVariables :=
            unassignedVariables nodeInfo |-| {|declarationPtr variableOccurrence|}\<rparr>
      | Access \<Rightarrow>
          if declarationPtr variableOccurrence |\<in>| unassignedVariables nodeInfo then
            if dataStoredInStorage (decls (declarationPtr variableOccurrence)) then
              nodeInfo\<lparr>uninitializedVariableAccesses :=
                finsert p (uninitializedVariableAccesses nodeInfo)\<rparr>
            else nodeInfo
          else nodeInfo
      | Declaration \<Rightarrow>
          nodeInfo\<lparr>unassignedVariables :=
            finsert (declarationPtr variableOccurrence) (unassignedVariables nodeInfo)\<rparr>)"

text \<open>
  The \<^verbatim>\<open>for\<close> loop over \<^verbatim>\<open>currentNode->variableOccurrences\<close>: \<open>i\<close> is the position of
  the head of the remaining list in the vector of node \<open>n\<close>.
\<close>

fun transfer ::
  "Declarations \<Rightarrow> nat \<Rightarrow> nat \<Rightarrow> VariableOccurrence list \<Rightarrow> NodeInfo \<Rightarrow> NodeInfo" where
  "transfer decls n i [] nodeInfo = nodeInfo"
| "transfer decls n i (vo # vos) nodeInfo =
     transfer decls n (Suc i) vos (applyOccurrence decls (n, i) vo nodeInfo)"

text \<open>
  The \<^verbatim>\<open>for\<close> loop over \<^verbatim>\<open>currentNode->exits\<close>. \<^verbatim>\<open>nodeInfo\<close> is a reference to the
  entry of the current node in the map, so it is read from the map at each exit. The
  stack \<^verbatim>\<open>nodesToTraverse\<close> is a list with its top at the head.
\<close>

fun propagateToExits ::
  "nat \<Rightarrow> nat list \<Rightarrow> NodeInfos \<times> nat list \<Rightarrow> NodeInfos \<times> nat list" where
  "propagateToExits currentNode [] s = s"
| "propagateToExits currentNode (exit # es) (nodeInfos, nodesToTraverse) =
     (let (grew, info) = propagateFrom (infoAt nodeInfos exit) (infoAt nodeInfos currentNode)
      in propagateToExits currentNode es
           (nodeInfos(exit \<mapsto> info),
            if grew then exit # nodesToTraverse else nodesToTraverse))"

text \<open>
  One run of the body of the \<^verbatim>\<open>while\<close> loop, for a stack with top \<open>currentNode\<close> and
  rest \<open>rest\<close>. The occurrences are applied to the entry of the map itself (\<^verbatim>\<open>auto&\<close>).
\<close>

definition visitNode ::
  "Declarations \<Rightarrow> CFG \<Rightarrow> nat \<Rightarrow> NodeInfos \<Rightarrow> NodeInfos" where
  "visitNode decls cfg currentNode nodeInfos =
     nodeInfos(currentNode \<mapsto>
       transfer decls currentNode 0 (variableOccurrences (cfg currentNode))
         (infoAt nodeInfos currentNode))"

definition iteration ::
  "Declarations \<Rightarrow> CFG \<Rightarrow> nat \<Rightarrow> nat list \<Rightarrow> NodeInfos \<Rightarrow> NodeInfos \<times> nat list" where
  "iteration decls cfg currentNode rest nodeInfos =
     propagateToExits currentNode (exits (cfg currentNode))
       (visitNode decls cfg currentNode nodeInfos, rest)"

text \<open>
  The \<^verbatim>\<open>while (!nodesToTraverse.empty())\<close> loop. It need not end, so the result is an
  option: \<open>None\<close> stands for a loop that runs forever.
\<close>

partial_function (option) traverse ::
  "Declarations \<Rightarrow> CFG \<Rightarrow> NodeInfos \<times> nat list \<Rightarrow> NodeInfos option" where
  "traverse decls cfg s =
     (case snd s of
        [] \<Rightarrow> Some (fst s)
      | currentNode # rest \<Rightarrow> traverse decls cfg (iteration decls cfg currentNode rest (fst s)))"

declare traverse.simps [code]

section \<open>Ordering and emission of the diagnostics\<close>

text \<open>
  The comparator handed to \<^verbatim>\<open>std::sort\<close>, on the two occurrences its arguments point
  to. The declaration of \<^verbatim>\<open>VariableOccurrence::Kind\<close> is not part of the sources at
  hand, so the value of \<^verbatim>\<open>static_cast<KindCompareType>(kind)\<close> is the parameter
  \<open>kindOrdinal\<close>.
\<close>

definition occurrenceLess ::
  "(Kind \<Rightarrow> int) \<Rightarrow> Declarations \<Rightarrow> VariableOccurrence \<Rightarrow> VariableOccurrence \<Rightarrow> bool" where
  "occurrenceLess kindOrdinal decls lhs rhs =
     (let byDeclaration =
            (if decl_id (decls (declarationPtr lhs)) < decl_id (decls (declarationPtr rhs)) then True
             else if decl_id (decls (declarationPtr rhs)) < decl_id (decls (declarationPtr lhs)) then False
             else kindOrdinal (kind lhs) < kindOrdinal (kind rhs))
      in if occurrence lhs \<noteq> None \<and> occurrence rhs \<noteq> None then
           if node_id (the (occurrence lhs)) < node_id (the (occurrence rhs)) then True
           else if node_id (the (occurrence rhs)) < node_id (the (occurrence lhs)) then False
           else byDeclaration
         else if occurrence rhs \<noteq> None then True
         else if occurrence lhs \<noteq> None then False
         else byDeclaration)"

text \<open>
  \<^verbatim>\<open>std::sort\<close> promises a permutation that is sorted with respect to the comparator and
  leaves the algorithm and the order of equivalent elements open. It is modelled by
  insertion sort, which keeps equivalent elements in their order.
\<close>

fun insertSorted :: "('a \<Rightarrow> 'a \<Rightarrow> bool) \<Rightarrow> 'a \<Rightarrow> 'a list \<Rightarrow> 'a list" where
  "insertSorted lt x [] = [x]"
| "insertSorted lt x (y # ys) =
     (if lt y x then y # insertSorted lt x ys else x # y # ys)"

definition stdSort :: "('a \<Rightarrow> 'a \<Rightarrow> bool) \<Rightarrow> 'a list \<Rightarrow> 'a list" where
  "stdSort lt xs = foldr (insertSorted lt) xs []"

text \<open>
  The vector \<^verbatim>\<open>uninitializedAccessesOrdered\<close>: filled from the set in the order of the
  set (the order of the addresses, here of node pointer and position), then sorted.
\<close>

definition uninitializedAccessesOrdered ::
  "(Kind \<Rightarrow> int) \<Rightarrow> Declarations \<Rightarrow> CFG \<Rightarrow> NodeInfo \<Rightarrow> OccurrencePtr list" where
  "uninitializedAccessesOrdered kindOrdinal decls cfg exitInfo =
     stdSort (\<lambda>lhs rhs. occurrenceLess kindOrdinal decls (occurrenceAt cfg lhs) (occurrenceAt cfg rhs))
       (sorted_list_of_fset (uninitializedVariableAccesses exitInfo))"

text \<open>
  Modelled from the spec: the classes \<^verbatim>\<open>Error\<close> and \<^verbatim>\<open>ErrorReporter\<close> and the function
  \<^verbatim>\<open>Error::containsOnlyWarnings\<close> are not part of the sources at hand. A diagnostic is a
  warning or an error; the reporter is the list of the diagnostics recorded so far, by
  this analyzer or by its caller; \<^verbatim>\<open>typeError\<close> records one more, of type \<open>TypeError\<close>,
  with a primary location, a list of secondary locations and a message; and a list
  contains only warnings when none of its entries is of an error-level type.
\<close>

datatype ErrorType = Warning | TypeError | OtherError

record Error =
  errorType :: ErrorType
  errorLocation :: SourceLocation
  secondarySourceLocation :: "(string \<times> SourceLocation) list"
  errorMessage :: string

type_synonym ErrorReporter = "Error list"

definition typeError ::
  "SourceLocation \<Rightarrow> (string \<times> SourceLocation) list \<Rightarrow> string \<Rightarrow> ErrorReporter \<Rightarrow> ErrorReporter" where
  "typeError location ssl description errors =
     errors @ [\<lparr>errorType = TypeError, errorLocation = location,
                secondarySourceLocation = ssl, errorMessage = description\<rparr>]"

definition containsOnlyWarnings :: "Error list \<Rightarrow> bool" where
  "containsOnlyWarnings errors = list_all (\<lambda>e. errorType e = Warning) errors"

text \<open>The body of the emission loop for one occurrence.\<close>

definition reportAccess :: "Declarations \<Rightarrow> VariableOccurrence \<Rightarrow> ErrorReporter \<Rightarrow> ErrorReporter" where
  "reportAccess decls variableOccurrence errors =
     (let ssl = (if occurrence variableOccurrence \<noteq> None
                 then [(''The variable was declared here.'',
                        decl_location (decls (declarationPtr variableOccurrence)))]
                 else [])
      in typeError
           (case occurrence variableOccurrence of
              Some node \<Rightarrow> node_location node
            | None \<Rightarrow> decl_location (decls (declarationPtr variableOccurrence)))
           ssl
           ''This variable is of storage pointer type and is accessed without prior assignment.''
           errors)"

fun reportAll :: "Declarations \<Rightarrow> CFG \<Rightarrow> OccurrencePtr list \<Rightarrow> ErrorReporter \<Rightarrow> ErrorReporter" where
  "reportAll decls cfg [] errors = errors"
| "reportAll decls cfg (p # ps) errors =
     reportAll decls cfg ps (reportAccess decls (occurrenceAt cfg p) errors)"

text \<open>
  \<open>reportedOccurrences\<close> is the vector the emission loop runs over: the sorted pending
  accesses of the exit node, or nothing when that set is empty.
\<close>

definition reportedOccurrences ::
  "(Kind \<Rightarrow> int) \<Rightarrow> Declarations \<Rightarrow> CFG \<Rightarrow> nat \<Rightarrow> NodeInfos \<Rightarrow> OccurrencePtr list" where
  "reportedOccurrences kindOrdinal decls cfg exit nodeInfos =
     (let exitInfo = infoAt nodeInfos exit
      in if uninitializedVariableAccesses exitInfo \<noteq> {||}
         then uninitializedAccessesOrdered kindOrdinal decls cfg exitInfo
         else [])"

definition checkUninitializedAccess ::
  "(Kind \<Rightarrow> int) \<Rightarrow> Declarations \<Rightarrow> CFG \<Rightarrow> nat \<Rightarrow> nat \<Rightarrow> ErrorReporter \<Rightarrow> ErrorReporter option" where
  "checkUninitializedAccess kindOrdinal decls cfg entry exit errors =
     (case traverse decls cfg (Map.empty, [entry]) of
        None \<Rightarrow> None
      | Some nodeInfos \<Rightarrow>
          Some (reportAll decls cfg (reportedOccurrences kindOrdinal decls cfg exit nodeInfos) errors))"

section \<open>The driver\<close>

text \<open>
  \<^verbatim>\<open>m_cfg.functionFlow(_function)\<close> yields the entry and the exit node of a function;
  it is held with the function definition.
\<close>

record FunctionFlow =
  flow_entry :: nat
  flow_exit :: nat

record FunctionDefinition =
  isImplemented :: bool
  functionFlow :: FunctionFlow

definition visit ::
  "(Kind \<Rightarrow> int) \<Rightarrow> Declarations \<Rightarrow> CFG \<Rightarrow> FunctionDefinition \<Rightarrow> ErrorReporter \<Rightarrow> ErrorReporter option" where
  "visit kindOrdinal decls cfg function errors =
     (if isImplemented function
      then checkUninitializedAccess kindOrdinal decls cfg
             (flow_entry (functionFlow function)) (flow_exit (functionFlow function)) errors
      else Some errors)"

text \<open>
  Modelled from the spec: \<^verbatim>\<open>ASTNode::accept\<close> is not part of the sources at hand. The
  traversal reaches the function definitions of the tree in source order and calls
  \<^verbatim>\<open>visit\<close> on each; \<^verbatim>\<open>visit\<close> returns false, so nothing below a function is visited.
  The tree is the list of its function definitions in that order.
\<close>

fun accept ::
  "(Kind \<Rightarrow> int) \<Rightarrow> Declarations \<Rightarrow> CFG \<Rightarrow> FunctionDefinition list \<Rightarrow> ErrorReporter \<Rightarrow> ErrorReporter option" where
  "accept kindOrdinal decls cfg [] errors = Some errors"
| "accept kindOrdinal decls cfg (f # fs) errors =
     (case visit kindOrdinal decls cfg f errors of
        None \<Rightarrow> None
      | Some errors' \<Rightarrow> accept kindOrdinal decls cfg fs errors')"

text \<open>
  \<^verbatim>\<open>analyze\<close> returns its flag; the model returns the reporter after the run with it.
\<close>

definition analyze ::
  "(Kind \<Rightarrow> int) \<Rightarrow> Declarations \<Rightarrow> CFG \<Rightarrow> FunctionDefinition list \<Rightarrow> ErrorReporter
     \<Rightarrow> (bool \<times> ErrorReporter) option" where
  "analyze kindOrdinal decls cfg astRoot errors =
     (case accept kindOrdinal decls cfg astRoot errors of
        None \<Rightarrow> None
      | Some errors' \<Rightarrow> Some (containsOnlyWarnings errors', errors'))"

section \<open>Notions used to state properties\<close>

text \<open>
  The analyzer does not compute any of these. \<open>cfgEdges\<close> and \<open>reaches\<close> are the edges
  and the paths of the control-flow graph.
\<close>

definition cfgEdges :: "CFG \<Rightarrow> (nat \<times> nat) set" where
  "cfgEdges cfg = {(n, e). e \<in> set (exits (cfg n))}"

definition reaches :: "CFG \<Rightarrow> nat \<Rightarrow> nat \<Rightarrow> bool" where
  "reaches cfg a b \<longleftrightarrow> (a, b) \<in> (cfgEdges cfg)\<^sup>*"

text \<open>
  \<open>occurrenceKey\<close> is the triple the comparator orders by, with \<open>None\<close> below every
  \<open>Some\<close>. \<open>idsIdentify\<close> says of two occurrences that their syntax nodes are the same
  when they have the same id, and their declarations likewise.
\<close>

definition occurrenceKey ::
  "(Kind \<Rightarrow> int) \<Rightarrow> Declarations \<Rightarrow> VariableOccurrence \<Rightarrow> int option \<times> int \<times> int" where
  "occurrenceKey kindOrdinal decls vo =
     (map_option node_id (occurrence vo), decl_id (decls (declarationPtr vo)), kindOrdinal (kind vo))"

definition idsIdentify :: "Declarations \<Rightarrow> VariableOccurrence \<Rightarrow> VariableOccurrence \<Rightarrow> bool" where
  "idsIdentify decls a b \<longleftrightarrow>
     (map_option node_id (occurrence a) = map_option node_id (occurrence b) \<longrightarrow>
        occurrence a = occurrence b) \<and>
     (decl_id (decls (declarationPtr a)) = decl_id (decls (declarationPtr b)) \<longrightarrow>
        decls (declarationPtr a) = decls (declarationPtr b))"

section \<open>Concrete inputs\<close>

text \<open>
  The inputs on which the theorems below are instantiated. Declaration pointer \<open>p\<close>
  holds a declaration with id \<open>p\<close>; all of them are storage pointers except the one at
  pointer 9.
\<close>

definition exKindOrdinal :: "Kind \<Rightarrow> int" where
  "exKindOrdinal k = (case k of Declaration \<Rightarrow> 0 | Access \<Rightarrow> 1 | Assignment \<Rightarrow> 2 | InlineAssembly \<Rightarrow> 3)"

definition exLocation :: "int \<Rightarrow> SourceLocation" where
  "exLocation n = \<lparr>loc_start = n, loc_end = n + 1, loc_source = ''a.sol''\<rparr>"

definition exDecls :: Declarations where
  "exDecls p = \<lparr>decl_id = int p, decl_location = exLocation (int p), dataStoredInStorage = (p \<noteq> 9)\<rparr>"

text \<open>An occurrence without a syntax node, and one bound to the syntax node with id \<open>n\<close>.\<close>

definition occ :: "Kind \<Rightarrow> nat \<Rightarrow> VariableOccurrence" where
  "occ k d = \<lparr>kind = k, declarationPtr = d, occurrence = None\<rparr>"

definition occAt :: "Kind \<Rightarrow> nat \<Rightarrow> int \<Rightarrow> VariableOccurrence" where
  "occAt k d n = \<lparr>kind = k, declarationPtr = d,
                  occurrence = Some \<lparr>node_id = n, node_location = exLocation n\<rparr>\<rparr>"

definition block :: "VariableOccurrence list \<Rightarrow> nat list \<Rightarrow> CFGNode" where
  "block vos es = \<lparr>variableOccurrences = vos, exits = es\<rparr>"

text \<open>
  \<open>cfgMixed\<close>: the entry 0 declares variable 1 and reads it twice, first through a
  syntax node and then without one; its exit is node 1.
\<close>

definition cfgMixed :: CFG where
  "cfgMixed = (\<lambda>_. block [] [])
     (0 := block [occ Declaration 1, occAt Access 1 30, occ Access 1] [1])"

text \<open>
  \<open>cfgRevert\<close>: the entry 0 declares variable 1 and branches to node 1, which reads the
  variable and has no exit (it reverts), and to node 2, which reads it and goes on to the
  exit node 3.
\<close>

definition cfgRevert :: CFG where
  "cfgRevert = (\<lambda>_. block [] [])
     (0 := block [occ Declaration 1] [1, 2],
      1 := block [occAt Access 1 31] [],
      2 := block [occAt Access 1 32] [3])"

text \<open>
  \<open>cfgLoop\<close>: the entry 0 declares variable 1; the loop head 1 reads it and branches to
  the loop body 2, which assigns it, declares variable 2 and returns to the head, and to
  the exit node 3. The head is visited more than once.
\<close>

definition cfgLoop :: CFG where
  "cfgLoop = (\<lambda>_. block [] [])
     (0 := block [occ Declaration 1] [1],
      1 := block [occAt Access 1 31] [2, 3],
      2 := block [occAt Assignment 1 32, occ Declaration 2] [1])"

text \<open>
  \<open>cfgAssigned\<close>: the entry 0 declares variable 1, assigns it, declares variable 2 and
  reads variable 1; its exit is node 1. \<open>cfgRedeclared\<close>: the entry 0 assigns
  variable 1, declares it and reads it; its exit is node 1.
\<close>

definition cfgAssigned :: CFG where
  "cfgAssigned = (\<lambda>_. block [] [])
     (0 := block [occ Declaration 1, occAt Assignment 1 31, occ Declaration 2,
                  occAt Access 1 32] [1])"

definition cfgRedeclared :: CFG where
  "cfgRedeclared = (\<lambda>_. block [] [])
     (0 := block [occAt Assignment 1 31, occ Declaration 1, occAt Access 1 32] [1])"

text \<open>
  \<open>cfgKill\<close>: the entry 0 declares variable 1 and goes on to node 1, which assigns it and
  goes on to the exit node 2.
\<close>

definition cfgKill :: CFG where
  "cfgKill = (\<lambda>_. block [] [])
     (0 := block [occ Declaration 1] [1],
      1 := block [occAt Assignment 1 31] [2])"

text \<open>
  \<open>cfgToggle\<close>: a loop of two blocks. The entry 0 declares variable 1 and assigns
  variable 2; node 1 declares variable 2 and assigns variable 1; node 1 goes back to the
  entry and on to the exit node 2. \<open>cfgToggleNoExit\<close> is the same loop without the edge
  to node 2.
\<close>

definition cfgToggle :: CFG where
  "cfgToggle = (\<lambda>_. block [] [])
     (0 := block [occ Declaration 1, occAt Assignment 2 31] [1],
      1 := block [occ Declaration 2, occAt Assignment 1 32] [0, 2])"

definition cfgToggleNoExit :: CFG where
  "cfgToggleNoExit = (\<lambda>_. block [] [])
     (0 := block [occ Declaration 1, occAt Assignment 2 31] [1],
      1 := block [occ Declaration 2, occAt Assignment 1 32] [0])"

text \<open>
  Two function definitions: \<open>funMixed\<close> is implemented, with entry 0 and exit 1;
  \<open>funAbstract\<close> has no body. \<open>priorError\<close> and \<open>priorWarning\<close> are entries of the
  reporter that an earlier phase of the compiler has recorded.
\<close>

definition funMixed :: FunctionDefinition where
  "funMixed = \<lparr>isImplemented = True, functionFlow = \<lparr>flow_entry = 0, flow_exit = 1\<rparr>\<rparr>"

definition funAbstract :: FunctionDefinition where
  "funAbstract = \<lparr>isImplemented = False, functionFlow = \<lparr>flow_entry = 0, flow_exit = 1\<rparr>\<rparr>"

definition priorError :: Error where
  "priorError = \<lparr>errorType = OtherError, errorLocation = exLocation 5,
                  secondarySourceLocation = [], errorMessage = ''Identifier not found.''\<rparr>"

definition priorWarning :: Error where
  "priorWarning = \<lparr>errorType = Warning, errorLocation = exLocation 7,
                    secondarySourceLocation = [], errorMessage = ''Unused local variable.''\<rparr>"

section \<open>Sorting with the comparator\<close>

lemma mset_insertSorted: "mset (insertSorted lt x xs) = add_mset x (mset xs)"
  by (induction xs) simp_all

lemma mset_stdSort: "mset (stdSort lt xs) = mset xs"
  by (induction xs) (simp_all add: stdSort_def mset_insertSorted)

lemma set_stdSort: "set (stdSort lt xs) = set xs"
  using mset_stdSort [of lt xs] by (metis set_mset_mset)

lemma distinct_stdSort: "distinct (stdSort lt xs) = distinct xs"
  using mset_stdSort [of lt xs] by (metis mset_eq_imp_distinct_iff)

lemma occurrenceLess_key:
  "occurrenceLess k ds a b \<longleftrightarrow> occurrenceKey k ds a < occurrenceKey k ds b"
  by (cases "occurrence a"; cases "occurrence b")
    (auto simp add: occurrenceLess_def occurrenceKey_def)

lemma sorted_insertSorted:
  assumes key: "\<And>a b. lt a b \<longleftrightarrow> f a < f b"
    and sorted: "sorted (map f ys)"
  shows "sorted (map f (insertSorted lt x ys))"
  using sorted
proof (induction ys)
  case Nil
  show ?case by simp
next
  case (Cons y ys)
  have set: "set (insertSorted lt x ys) = insert x (set ys)"
    using mset_insertSorted [of lt x ys] by (metis set_mset_mset set_mset_add_mset_insert)
  show ?case
  proof (cases "lt y x")
    case True
    with key have "f y \<le> f x" by (simp add: less_imp_le)
    with Cons.prems set have "\<forall>z \<in> set (insertSorted lt x ys). f y \<le> f z"
      by auto
    moreover from Cons have "sorted (map f (insertSorted lt x ys))"
      by simp
    ultimately show ?thesis using True by simp
  next
    case False
    with key have "f x \<le> f y" by (simp add: not_less)
    with Cons.prems False show ?thesis by auto
  qed
qed

lemma sorted_stdSort:
  assumes "\<And>a b. lt a b \<longleftrightarrow> f a < f b"
  shows "sorted (map f (stdSort lt xs))"
  by (induction xs) (simp_all add: stdSort_def sorted_insertSorted [OF assms])

lemma sorted_wrt_keyD:
  assumes "\<And>a b. lt a b \<longleftrightarrow> f a < f b"
    and "sorted_wrt (\<lambda>a b. \<not> lt b a) ys"
  shows "sorted (map f ys)"
  using assms(2) by (simp add: assms(1) sorted_map not_less)

lemma sorted_wrt_keyI:
  assumes "\<And>a b. lt a b \<longleftrightarrow> f a < f b"
    and "sorted (map f ys)"
  shows "sorted_wrt (\<lambda>a b. \<not> lt b a) ys"
  using assms(2) by (simp add: assms(1) sorted_map not_less)

lemma sorted_keys_unique:
  fixes f :: "'a \<Rightarrow> 'b::linorder"
  assumes "mset ys = mset zs" "sorted (map f ys)" "sorted (map f zs)"
  shows "map f ys = map f zs"
proof -
  from assms(1) have "mset (map f ys) = mset (map f zs)" by simp
  from properties_for_sort [OF this assms(2)] have "sort (map f zs) = map f ys" .
  moreover from assms(3) have "sort (map f zs) = map f zs"
    by (simp add: sort_key_id_if_sorted)
  ultimately show ?thesis by simp
qed

lemma uninitializedAccessesOrdered_sorted:
  "sorted_wrt (\<lambda>a b. \<not> occurrenceLess k ds (occurrenceAt cfg b) (occurrenceAt cfg a))
     (uninitializedAccessesOrdered k ds cfg info)"
proof -
  let ?f = "\<lambda>p. occurrenceKey k ds (occurrenceAt cfg p)"
  have key: "occurrenceLess k ds (occurrenceAt cfg a) (occurrenceAt cfg b) \<longleftrightarrow> ?f a < ?f b"
    for a b by (rule occurrenceLess_key)
  let ?lt = "\<lambda>a b. occurrenceLess k ds (occurrenceAt cfg a) (occurrenceAt cfg b)"
  have "sorted (map ?f (stdSort ?lt (sorted_list_of_fset (uninitializedVariableAccesses info))))"
    by (rule sorted_stdSort [OF key])
  then show ?thesis
    unfolding uninitializedAccessesOrdered_def
    by (rule sorted_wrt_keyI [where lt = ?lt, OF key])
qed

lemma reportedOccurrences_sorted:
  "sorted_wrt (\<lambda>a b. \<not> occurrenceLess k ds (occurrenceAt cfg b) (occurrenceAt cfg a))
     (reportedOccurrences k ds cfg exit m)"
  by (simp add: reportedOccurrences_def Let_def uninitializedAccessesOrdered_sorted)

section \<open>The comparator\<close>

lemma occurrenceLess_None_Some:
  "occurrence a = None \<Longrightarrow> occurrence b = Some y \<Longrightarrow>
     occurrenceLess k ds a b \<and> \<not> occurrenceLess k ds b a"
  by (simp add: occurrenceLess_def)

lemma occurrenceLess_Some_Some:
  "occurrence a = Some x \<Longrightarrow> occurrence b = Some y \<Longrightarrow>
     occurrenceLess k ds a b =
       (node_id x < node_id y \<or>
        node_id x = node_id y \<and>
          (decl_id (ds (declarationPtr a)) < decl_id (ds (declarationPtr b)) \<or>
           decl_id (ds (declarationPtr a)) = decl_id (ds (declarationPtr b)) \<and>
             k (kind a) < k (kind b)))"
  by (auto simp add: occurrenceLess_def)

text \<open>
  Claim C1, as stated: of two occurrences of which exactly one has a bound syntax node,
  the one lacking it orders after the one having it. The comparator does the opposite:
  in \<open>cfgMixed\<close> the read without a syntax node is less than the read bound to syntax
  node 30, and it comes first in the sorted vector.
\<close>

theorem occurrenceLess_unbound_after_counterexample:
  "occurrence (occ Access 1) = None \<and> occurrence (occAt Access 1 30) \<noteq> None \<and>
   occurrenceLess exKindOrdinal exDecls (occ Access 1) (occAt Access 1 30) \<and>
   \<not> occurrenceLess exKindOrdinal exDecls (occAt Access 1 30) (occ Access 1) \<and>
   map_option (reportedOccurrences exKindOrdinal exDecls cfgMixed 1)
     (traverse exDecls cfgMixed (Map.empty, [0])) = Some [(0, 2), (0, 1)] \<and>
   occurrenceAt cfgMixed (0, 2) = occ Access 1 \<and>
   occurrenceAt cfgMixed (0, 1) = occAt Access 1 30"
  by (simp add: occurrenceLess_def occ_def occAt_def exDecls_def exKindOrdinal_def
      traverse.simps iteration_def visitNode_def cfgMixed_def block_def infoAt_def
      emptyNodeInfo_def applyOccurrence_def propagateFrom_def Let_def fcard_finsert_if
      reportedOccurrences_def uninitializedAccessesOrdered_def stdSort_def
      sorted_list_of_fset.rep_eq occurrenceAt_def)

lemma unbound_before_bound_in_sorted:
  assumes sorted: "sorted_wrt (\<lambda>a b. \<not> occurrenceLess k ds (occurrenceAt cfg b) (occurrenceAt cfg a)) xs"
    and i: "i < length xs" and j: "j < length xs"
    and unbound: "occurrence (occurrenceAt cfg (xs ! i)) = None"
    and bound: "occurrence (occurrenceAt cfg (xs ! j)) \<noteq> None"
  shows "i < j"
proof (rule ccontr)
  assume "\<not> i < j"
  moreover from unbound bound have "i \<noteq> j" by auto
  ultimately have "j < i" by simp
  with sorted i have
    "\<not> occurrenceLess k ds (occurrenceAt cfg (xs ! i)) (occurrenceAt cfg (xs ! j))"
    by (simp add: sorted_wrt_iff_nth_less)
  moreover from unbound bound have
    "occurrenceLess k ds (occurrenceAt cfg (xs ! i)) (occurrenceAt cfg (xs ! j))"
    using occurrenceLess_None_Some [of "occurrenceAt cfg (xs ! i)" "occurrenceAt cfg (xs ! j)"]
    by auto
  ultimately show False by simp
qed

text \<open>
  Claim C1, amended: of two occurrences of which exactly one has a bound syntax node, the
  one lacking it orders before the one having it, and it stands before it in the vector
  of reported occurrences; two occurrences that both have one compare by syntax-node id
  ascending, then by declaration id ascending, then by kind ordinal ascending.
\<close>

theorem occurrenceLess_unbound_first:
  "(occurrence a = None \<and> occurrence b \<noteq> None \<longrightarrow>
      occurrenceLess k ds a b \<and> \<not> occurrenceLess k ds b a) \<and>
   (\<forall>x y. occurrence a = Some x \<and> occurrence b = Some y \<longrightarrow>
      occurrenceLess k ds a b =
        (node_id x < node_id y \<or>
         node_id x = node_id y \<and>
           (decl_id (ds (declarationPtr a)) < decl_id (ds (declarationPtr b)) \<or>
            decl_id (ds (declarationPtr a)) = decl_id (ds (declarationPtr b)) \<and>
              k (kind a) < k (kind b)))) \<and>
   (\<forall>i j. i < length (reportedOccurrences k ds cfg exit nodeInfos) \<and>
          j < length (reportedOccurrences k ds cfg exit nodeInfos) \<and>
          occurrence (occurrenceAt cfg (reportedOccurrences k ds cfg exit nodeInfos ! i)) = None \<and>
          occurrence (occurrenceAt cfg (reportedOccurrences k ds cfg exit nodeInfos ! j)) \<noteq> None \<longrightarrow>
          i < j)"
  using occurrenceLess_None_Some [of a b] occurrenceLess_Some_Some [of a _ b]
    unbound_before_bound_in_sorted [OF reportedOccurrences_sorted [of k ds cfg exit nodeInfos]]
  by blast

theorem occurrenceLess_unbound_first_witness:
  "occurrence (occ Access 1) = None \<and> occurrence (occAt Access 1 30) \<noteq> None \<and>
   occurrenceLess exKindOrdinal exDecls (occ Access 1) (occAt Access 1 30) \<and>
   \<not> occurrenceLess exKindOrdinal exDecls (occAt Access 1 30) (occ Access 1) \<and>
   occurrenceLess exKindOrdinal exDecls (occAt Access 2 30) (occAt Access 1 31) \<and>
   occurrenceLess exKindOrdinal exDecls (occAt Access 1 30) (occAt Access 2 30) \<and>
   occurrenceLess exKindOrdinal exDecls (occAt Access 1 30) (occAt Assignment 1 30) \<and>
   reportedOccurrences exKindOrdinal exDecls cfgMixed 1
     (Map.empty(1 \<mapsto> \<lparr>unassignedVariables = {|1|},
                         uninitializedVariableAccesses = {|(0, 2), (0, 1)|}\<rparr>)) =
     [(0, 2), (0, 1)] \<and>
   occurrence (occurrenceAt cfgMixed (0, 2)) = None \<and>
   occurrence (occurrenceAt cfgMixed (0, 1)) \<noteq> None \<and> (0::nat) < 1"
proof -
  let ?m = "Map.empty(1 \<mapsto> \<lparr>unassignedVariables = {|1::nat|},
                         uninitializedVariableAccesses = {|(0::nat, 2::nat), (0, 1)|}\<rparr>)"
  let ?n30 = "\<lparr>node_id = 30, node_location = exLocation 30\<rparr>"
  let ?n31 = "\<lparr>node_id = 31, node_location = exLocation 31\<rparr>"
  have unbound: "occurrence (occ Access 1) = None \<and> occurrence (occAt Access 1 30) \<noteq> None"
    by (simp add: occ_def occAt_def)
  have bound: "occurrence (occAt Access 2 30) = Some ?n30"
    "occurrence (occAt Access 1 30) = Some ?n30"
    "occurrence (occAt Assignment 1 30) = Some ?n30"
    "occurrence (occAt Access 1 31) = Some ?n31"
    by (simp_all add: occAt_def)
  have vector: "reportedOccurrences exKindOrdinal exDecls cfgMixed 1 ?m = [(0, 2), (0, 1)]"
    by (simp add: reportedOccurrences_def uninitializedAccessesOrdered_def stdSort_def
        sorted_list_of_fset.rep_eq infoAt_def occurrenceLess_def occurrenceAt_def
        cfgMixed_def block_def occ_def occAt_def)
  have at: "occurrence (occurrenceAt cfgMixed (0, 2)) = None"
    "occurrence (occurrenceAt cfgMixed (0, 1)) \<noteq> None"
    by (simp_all add: occurrenceAt_def cfgMixed_def block_def occ_def occAt_def)
  note t1 = occurrenceLess_unbound_first [of "occ Access 1" "occAt Access 1 30"
      exKindOrdinal exDecls cfgMixed 1 ?m]
  note t2 = occurrenceLess_unbound_first [of "occAt Access 2 30" "occAt Access 1 31"
      exKindOrdinal exDecls cfgMixed 1 ?m]
  note t3 = occurrenceLess_unbound_first [of "occAt Access 1 30" "occAt Access 2 30"
      exKindOrdinal exDecls cfgMixed 1 ?m]
  note t4 = occurrenceLess_unbound_first [of "occAt Access 1 30" "occAt Assignment 1 30"
      exKindOrdinal exDecls cfgMixed 1 ?m]
  from t1 unbound have c1: "occurrenceLess exKindOrdinal exDecls (occ Access 1) (occAt Access 1 30) \<and>
      \<not> occurrenceLess exKindOrdinal exDecls (occAt Access 1 30) (occ Access 1)"
    by blast
  from t2 bound have "occurrenceLess exKindOrdinal exDecls (occAt Access 2 30) (occAt Access 1 31) =
      (node_id ?n30 < node_id ?n31 \<or>
       node_id ?n30 = node_id ?n31 \<and>
         (decl_id (exDecls (declarationPtr (occAt Access 2 30)))
            < decl_id (exDecls (declarationPtr (occAt Access 1 31))) \<or>
          decl_id (exDecls (declarationPtr (occAt Access 2 30)))
            = decl_id (exDecls (declarationPtr (occAt Access 1 31))) \<and>
          exKindOrdinal (kind (occAt Access 2 30)) < exKindOrdinal (kind (occAt Access 1 31))))"
    by blast
  then have c2: "occurrenceLess exKindOrdinal exDecls (occAt Access 2 30) (occAt Access 1 31)"
    by simp
  from t3 bound have "occurrenceLess exKindOrdinal exDecls (occAt Access 1 30) (occAt Access 2 30) =
      (node_id ?n30 < node_id ?n30 \<or>
       node_id ?n30 = node_id ?n30 \<and>
         (decl_id (exDecls (declarationPtr (occAt Access 1 30)))
            < decl_id (exDecls (declarationPtr (occAt Access 2 30))) \<or>
          decl_id (exDecls (declarationPtr (occAt Access 1 30)))
            = decl_id (exDecls (declarationPtr (occAt Access 2 30))) \<and>
          exKindOrdinal (kind (occAt Access 1 30)) < exKindOrdinal (kind (occAt Access 2 30))))"
    by blast
  then have c3: "occurrenceLess exKindOrdinal exDecls (occAt Access 1 30) (occAt Access 2 30)"
    by (simp add: occAt_def exDecls_def)
  from t4 bound have "occurrenceLess exKindOrdinal exDecls (occAt Access 1 30) (occAt Assignment 1 30) =
      (node_id ?n30 < node_id ?n30 \<or>
       node_id ?n30 = node_id ?n30 \<and>
         (decl_id (exDecls (declarationPtr (occAt Access 1 30)))
            < decl_id (exDecls (declarationPtr (occAt Assignment 1 30))) \<or>
          decl_id (exDecls (declarationPtr (occAt Access 1 30)))
            = decl_id (exDecls (declarationPtr (occAt Assignment 1 30))) \<and>
          exKindOrdinal (kind (occAt Access 1 30)) < exKindOrdinal (kind (occAt Assignment 1 30))))"
    by blast
  then have c4: "occurrenceLess exKindOrdinal exDecls (occAt Access 1 30) (occAt Assignment 1 30)"
    by (simp add: occAt_def exDecls_def exKindOrdinal_def)
  from unbound c1 c2 c3 c4 vector at show ?thesis
    by simp
qed

section \<open>The transfer of one node\<close>

lemma transfer_enumerate:
  "transfer ds n i vos info =
     fold (\<lambda>(j, vo). applyOccurrence ds (n, j) vo) (enumerate i vos) info"
  by (induction vos arbitrary: i info) simp_all

lemma transfer_append:
  "transfer ds n i (vos @ vos') info =
     transfer ds n (i + length vos) vos' (transfer ds n i vos info)"
  by (induction vos arbitrary: i info) simp_all

text \<open>
  Claim C4, as stated: the transfer of a node starts from a working copy of
  \<open>NodeInfo(N)\<close>. The code takes a reference to the entry of the map and applies the
  occurrences to the entry itself. In \<open>cfgLoop\<close>, after the visit of the entry, node 1 is
  on the stack and its stored sets are \<open>{1}\<close> and the empty set; the visit of node 1
  inserts the read at position 0 into the stored pending accesses of node 1.
\<close>

theorem transfer_in_place_counterexample:
  "snd (iteration exDecls cfgLoop 0 [] Map.empty) = [1] \<and>
   infoAt (fst (iteration exDecls cfgLoop 0 [] Map.empty)) 1 =
     \<lparr>unassignedVariables = {|1|}, uninitializedVariableAccesses = {||}\<rparr> \<and>
   infoAt (visitNode exDecls cfgLoop 1 (fst (iteration exDecls cfgLoop 0 [] Map.empty))) 1 =
     \<lparr>unassignedVariables = {|1|}, uninitializedVariableAccesses = {|(1, 0)|}\<rparr> \<and>
   infoAt (visitNode exDecls cfgLoop 1 (fst (iteration exDecls cfgLoop 0 [] Map.empty))) 1 \<noteq>
     infoAt (fst (iteration exDecls cfgLoop 0 [] Map.empty)) 1"
  by (simp add: iteration_def visitNode_def cfgLoop_def block_def occ_def occAt_def
      exDecls_def infoAt_def emptyNodeInfo_def applyOccurrence_def propagateFrom_def Let_def
      fcard_finsert_if)

text \<open>
  Claim C4, amended: the transfer of a node applies the occurrences of the node in their
  order, each at its position, starting from \<open>NodeInfo(N)\<close> itself, and leaves its
  result in \<open>NodeInfo(N)\<close>; the entries of the other nodes stay as they are. A
  Declaration inserts the declaration into the unassigned set; an Assignment and an
  InlineAssembly remove it; an Access leaves the unassigned set as it is and inserts the
  occurrence into the pending accesses exactly when the declaration is in the unassigned
  set at that moment and is stored in storage. Nothing else changes.
\<close>

theorem transfer_effects:
  "infoAt (visitNode ds cfg n nodeInfos) n =
     fold (\<lambda>(j, vo). applyOccurrence ds (n, j) vo)
       (enumerate 0 (variableOccurrences (cfg n))) (infoAt nodeInfos n) \<and>
   (n' \<noteq> n \<longrightarrow> visitNode ds cfg n nodeInfos n' = nodeInfos n') \<and>
   (kind vo = Declaration \<longrightarrow>
      applyOccurrence ds p vo info =
        \<lparr>unassignedVariables = finsert (declarationPtr vo) (unassignedVariables info),
         uninitializedVariableAccesses = uninitializedVariableAccesses info\<rparr>) \<and>
   (kind vo = Assignment \<or> kind vo = InlineAssembly \<longrightarrow>
      applyOccurrence ds p vo info =
        \<lparr>unassignedVariables = unassignedVariables info |-| {|declarationPtr vo|},
         uninitializedVariableAccesses = uninitializedVariableAccesses info\<rparr>) \<and>
   (kind vo = Access \<longrightarrow>
      applyOccurrence ds p vo info =
        \<lparr>unassignedVariables = unassignedVariables info,
         uninitializedVariableAccesses =
           (if declarationPtr vo |\<in>| unassignedVariables info \<and>
               dataStoredInStorage (ds (declarationPtr vo))
            then finsert p (uninitializedVariableAccesses info)
            else uninitializedVariableAccesses info)\<rparr>)"
  by (auto simp add: visitNode_def infoAt_def transfer_enumerate applyOccurrence_def)

theorem transfer_effects_witness:
  "kind (occ Declaration 1) = Declaration \<and> kind (occ Assignment 1) = Assignment \<and>
   kind (occ InlineAssembly 1) = InlineAssembly \<and> kind (occAt Access 1 30) = Access \<and>
   applyOccurrence exDecls (0, 0) (occ Declaration 1) emptyNodeInfo =
     \<lparr>unassignedVariables = {|1|}, uninitializedVariableAccesses = {||}\<rparr> \<and>
   applyOccurrence exDecls (0, 1) (occAt Access 1 30)
       \<lparr>unassignedVariables = {|1|}, uninitializedVariableAccesses = {||}\<rparr> =
     \<lparr>unassignedVariables = {|1|}, uninitializedVariableAccesses = {|(0, 1)|}\<rparr> \<and>
   applyOccurrence exDecls (0, 1) (occAt Access 1 30) emptyNodeInfo = emptyNodeInfo \<and>
   applyOccurrence exDecls (0, 2) (occ Assignment 1)
       \<lparr>unassignedVariables = {|1|}, uninitializedVariableAccesses = {|(0, 1)|}\<rparr> =
     \<lparr>unassignedVariables = {||}, uninitializedVariableAccesses = {|(0, 1)|}\<rparr> \<and>
   applyOccurrence exDecls (0, 2) (occ InlineAssembly 1)
       \<lparr>unassignedVariables = {|1|}, uninitializedVariableAccesses = {|(0, 1)|}\<rparr> =
     \<lparr>unassignedVariables = {||}, uninitializedVariableAccesses = {|(0, 1)|}\<rparr> \<and>
   infoAt (visitNode exDecls cfgMixed 0 Map.empty) 0 =
     \<lparr>unassignedVariables = {|1|}, uninitializedVariableAccesses = {|(0, 2), (0, 1)|}\<rparr> \<and>
   (1::nat) \<noteq> 0 \<and> visitNode exDecls cfgMixed 0 Map.empty 1 = None"
  using
    transfer_effects [of exDecls cfgMixed 0 Map.empty 1 "occ Declaration 1" "(0, 0)" emptyNodeInfo]
    transfer_effects [of exDecls cfgMixed 0 Map.empty 1 "occAt Access 1 30" "(0, 1)"
      "\<lparr>unassignedVariables = {|1|}, uninitializedVariableAccesses = {||}\<rparr>"]
    transfer_effects [of exDecls cfgMixed 0 Map.empty 1 "occAt Access 1 30" "(0, 1)" emptyNodeInfo]
    transfer_effects [of exDecls cfgMixed 0 Map.empty 1 "occ Assignment 1" "(0, 2)"
      "\<lparr>unassignedVariables = {|1|}, uninitializedVariableAccesses = {|(0, 1)|}\<rparr>"]
    transfer_effects [of exDecls cfgMixed 0 Map.empty 1 "occ InlineAssembly 1" "(0, 2)"
      "\<lparr>unassignedVariables = {|1|}, uninitializedVariableAccesses = {|(0, 1)|}\<rparr>"]
  by (simp add: occ_def occAt_def exDecls_def emptyNodeInfo_def cfgMixed_def block_def
      infoAt_def applyOccurrence_def enumerate_eq_zip upt_rec numeral_2_eq_2)

section \<open>Facts about one run of the loop body\<close>

lemma traverse_rule:
  assumes run: "traverse ds cfg s = Some m"
    and init: "I s"
    and step: "\<And>nodeInfos currentNode rest.
           I (nodeInfos, currentNode # rest) \<Longrightarrow> I (iteration ds cfg currentNode rest nodeInfos)"
  shows "I (m, [])"
proof -
  let ?P = "\<lambda>ds' cfg' s' m'. ds' = ds \<and> cfg' = cfg \<and> I s' \<longrightarrow> I (m', [])"
  have "?P ds cfg s m"
  proof (rule traverse.raw_induct [where P = ?P, OF _ run])
    fix trav ds' cfg' s' m'
    assume IH: "\<And>d c t y. trav d c t = Some y \<Longrightarrow> ?P d c t y"
      and eq: "(case snd s' of [] \<Rightarrow> Some (fst s')
                | currentNode # rest \<Rightarrow>
                    trav ds' cfg' (iteration ds' cfg' currentNode rest (fst s'))) = Some m'"
    show "?P ds' cfg' s' m'"
    proof (intro impI, elim conjE)
      assume same: "ds' = ds" "cfg' = cfg" and inv: "I s'"
      obtain nodeInfos st where s': "s' = (nodeInfos, st)"
        by (cases s')
      show "I (m', [])"
      proof (cases st)
        case Nil
        with eq s' have "nodeInfos = m'" by simp
        with inv s' Nil show ?thesis by simp
      next
        case (Cons c rest)
        with eq s' have "trav ds' cfg' (iteration ds' cfg' c rest nodeInfos) = Some m'"
          by simp
        moreover have "I (iteration ds' cfg' c rest nodeInfos)"
          using step inv s' Cons same by simp
        ultimately show ?thesis
          using IH same by blast
      qed
    qed
  qed
  with init show ?thesis by simp
qed

lemma snd_propagateFrom:
  "snd (propagateFrom a b) =
     \<lparr>unassignedVariables = unassignedVariables a |\<union>| unassignedVariables b,
      uninitializedVariableAccesses =
        uninitializedVariableAccesses a |\<union>| uninitializedVariableAccesses b\<rparr>"
  by (simp add: propagateFrom_def Let_def)

lemma fcard_funion_gt: "fcard A < fcard (A |\<union>| B) \<longleftrightarrow> \<not> B |\<subseteq>| A"
proof
  assume "fcard A < fcard (A |\<union>| B)"
  then have "A |\<union>| B \<noteq> A" by auto
  then show "\<not> B |\<subseteq>| A" by auto
next
  assume "\<not> B |\<subseteq>| A"
  then have "A |\<subset>| A |\<union>| B" by auto
  then show "fcard A < fcard (A |\<union>| B)" by (rule pfsubset_fcard_mono)
qed

lemma fst_propagateFrom:
  "fst (propagateFrom a b) \<longleftrightarrow>
     \<not> unassignedVariables b |\<subseteq>| unassignedVariables a \<or>
     \<not> uninitializedVariableAccesses b |\<subseteq>| uninitializedVariableAccesses a"
  by (simp add: propagateFrom_def Let_def fcard_funion_gt)

lemma propagateFrom_self: "snd (propagateFrom a a) = a"
  by (simp add: snd_propagateFrom)

lemma propagateFrom_twice:
  "snd (propagateFrom (snd (propagateFrom a b)) b) = snd (propagateFrom a b)"
  by (auto simp add: snd_propagateFrom)

lemma infoAt_upd: "infoAt (m(k \<mapsto> v)) n = (if n = k then v else infoAt m n)"
  by (simp add: infoAt_def)

lemma propagateToExits_Cons:
  "propagateToExits cur (e # es) (m, st) =
     propagateToExits cur es
       (m(e \<mapsto> snd (propagateFrom (infoAt m e) (infoAt m cur))),
        if fst (propagateFrom (infoAt m e) (infoAt m cur)) then e # st else st)"
  by (simp add: case_prod_unfold Let_def)

lemma propagateToExits_infoAt:
  "infoAt (fst (propagateToExits cur es (m, st))) n =
     (if n \<in> set es then snd (propagateFrom (infoAt m n) (infoAt m cur)) else infoAt m n)"
proof (induction es arbitrary: m st)
  case Nil
  show ?case by simp
next
  case (Cons e es)
  let ?x = "snd (propagateFrom (infoAt m e) (infoAt m cur))"
  let ?m1 = "m(e \<mapsto> ?x)"
  let ?st1 = "if fst (propagateFrom (infoAt m e) (infoAt m cur)) then e # st else st"
  have cur: "infoAt ?m1 cur = infoAt m cur"
    by (simp add: infoAt_upd propagateFrom_self)
  have IH: "infoAt (fst (propagateToExits cur es (?m1, ?st1))) n =
     (if n \<in> set es then snd (propagateFrom (infoAt ?m1 n) (infoAt m cur)) else infoAt ?m1 n)"
    unfolding Cons.IH cur ..
  show ?case
  proof (cases "n = e")
    case True
    then have "infoAt ?m1 n = ?x" by (simp add: infoAt_upd)
    with IH True show ?thesis
      unfolding propagateToExits_Cons by (simp add: propagateFrom_twice)
  next
    case False
    then have "infoAt ?m1 n = infoAt m n" by (simp add: infoAt_upd)
    with IH False show ?thesis
      unfolding propagateToExits_Cons by simp
  qed
qed

lemma propagateToExits_dom:
  "dom (fst (propagateToExits cur es (m, st))) = dom m \<union> set es"
proof (induction es arbitrary: m st)
  case Nil
  show ?case by simp
next
  case (Cons e es)
  show ?case
    unfolding propagateToExits_Cons Cons.IH by auto
qed

lemma propagateToExits_stack:
  "set (snd (propagateToExits cur es (m, st))) \<subseteq> set st \<union> set es"
proof (induction es arbitrary: m st)
  case Nil
  show ?case by simp
next
  case (Cons e es)
  let ?m1 = "m(e \<mapsto> snd (propagateFrom (infoAt m e) (infoAt m cur)))"
  let ?st1 = "if fst (propagateFrom (infoAt m e) (infoAt m cur)) then e # st else st"
  have "set (snd (propagateToExits cur es (?m1, ?st1))) \<subseteq> set ?st1 \<union> set es"
    by (rule Cons.IH)
  also have "\<dots> \<subseteq> set st \<union> set (e # es)"
    by auto
  finally show ?case
    unfolding propagateToExits_Cons .
qed

lemma visitNode_infoAt:
  "infoAt (visitNode ds cfg cur m) n =
     (if n = cur
      then transfer ds cur 0 (variableOccurrences (cfg cur)) (infoAt m cur)
      else infoAt m n)"
  by (simp add: visitNode_def infoAt_upd)

lemma visitNode_dom: "dom (visitNode ds cfg cur m) = insert cur (dom m)"
  by (simp add: visitNode_def)

lemma iteration_infoAt:
  "infoAt (fst (iteration ds cfg cur rest m)) n =
     (if n \<in> set (exits (cfg cur))
      then snd (propagateFrom (infoAt (visitNode ds cfg cur m) n) (infoAt (visitNode ds cfg cur m) cur))
      else infoAt (visitNode ds cfg cur m) n)"
  by (simp add: iteration_def propagateToExits_infoAt)

lemma iteration_dom:
  "dom (fst (iteration ds cfg cur rest m)) = insert cur (dom m) \<union> set (exits (cfg cur))"
  by (simp add: iteration_def propagateToExits_dom visitNode_dom)

lemma iteration_stack:
  "set (snd (iteration ds cfg cur rest m)) \<subseteq> set rest \<union> set (exits (cfg cur))"
  by (simp add: iteration_def propagateToExits_stack)

lemma applyOccurrence_pending:
  "uninitializedVariableAccesses (applyOccurrence ds p vo info) =
     (if kind vo = Access \<and> declarationPtr vo |\<in>| unassignedVariables info \<and>
         dataStoredInStorage (ds (declarationPtr vo))
      then finsert p (uninitializedVariableAccesses info)
      else uninitializedVariableAccesses info)"
  by (cases "kind vo") (simp_all add: applyOccurrence_def)

lemma transfer_pending_mono:
  "uninitializedVariableAccesses info |\<subseteq>|
     uninitializedVariableAccesses (transfer ds n i vos info)"
proof (induction vos arbitrary: i info)
  case Nil
  show ?case by simp
next
  case (Cons vo vos)
  have "uninitializedVariableAccesses info |\<subseteq>|
          uninitializedVariableAccesses (applyOccurrence ds (n, i) vo info)"
    by (auto simp add: applyOccurrence_pending)
  also have "\<dots> |\<subseteq>| uninitializedVariableAccesses
      (transfer ds n (Suc i) vos (applyOccurrence ds (n, i) vo info))"
    by (rule Cons.IH)
  finally show ?case by simp
qed

lemma transfer_pending_new:
  "p |\<in>| uninitializedVariableAccesses (transfer ds n i vos info) \<Longrightarrow>
   p |\<in>| uninitializedVariableAccesses info \<or>
   (\<exists>j < length vos. p = (n, i + j) \<and> kind (vos ! j) = Access \<and>
      dataStoredInStorage (ds (declarationPtr (vos ! j))))"
proof (induction vos arbitrary: i info)
  case Nil
  then show ?case by simp
next
  case (Cons vo vos)
  from Cons.prems have
    "p |\<in>| uninitializedVariableAccesses
       (transfer ds n (Suc i) vos (applyOccurrence ds (n, i) vo info))"
    by simp
  from Cons.IH [OF this] show ?case
  proof
    assume "p |\<in>| uninitializedVariableAccesses (applyOccurrence ds (n, i) vo info)"
    then show ?thesis
      by (auto simp add: applyOccurrence_pending split: if_splits)
  next
    assume "\<exists>j<length vos. p = (n, Suc i + j) \<and> kind (vos ! j) = Access \<and>
      dataStoredInStorage (ds (declarationPtr (vos ! j)))"
    then obtain j where "j < length vos" "p = (n, Suc i + j)" "kind (vos ! j) = Access"
      "dataStoredInStorage (ds (declarationPtr (vos ! j)))"
      by blast
    then have "Suc j < length (vo # vos) \<and> p = (n, i + Suc j) \<and>
      kind ((vo # vos) ! Suc j) = Access \<and>
      dataStoredInStorage (ds (declarationPtr ((vo # vos) ! Suc j)))"
      by simp
    then show ?thesis by blast
  qed
qed

section \<open>What holds whenever the loop returns\<close>

lemma reaches_refl: "reaches cfg a a"
  by (simp add: reaches_def)

lemma reaches_exit:
  "reaches cfg a b \<Longrightarrow> e \<in> set (exits (cfg b)) \<Longrightarrow> reaches cfg a e"
  unfolding reaches_def cfgEdges_def
  by (erule rtrancl_into_rtrancl) simp

text \<open>
  Every pending access, at whatever node it is held, is an access to a storage variable
  that sits in a node reachable from the entry, and the node that holds it is reachable
  from the node of the access. Only reachable nodes are on the stack or in the map.
\<close>

lemma traverse_origin_aux:
  assumes run: "traverse ds cfg (Map.empty, [entry]) = Some m"
  shows "(\<forall>n \<in> dom m. reaches cfg entry n) \<and>
    (\<forall>n p. p |\<in>| uninitializedVariableAccesses (infoAt m n) \<longrightarrow>
       reaches cfg entry (fst p) \<and> reaches cfg (fst p) n \<and>
       snd p < length (variableOccurrences (cfg (fst p))) \<and>
       kind (occurrenceAt cfg p) = Access \<and>
       dataStoredInStorage (ds (declarationPtr (occurrenceAt cfg p))))"
proof -
  let ?Q = "\<lambda>p n. reaches cfg entry (fst p) \<and> reaches cfg (fst p) n \<and>
       snd p < length (variableOccurrences (cfg (fst p))) \<and>
       kind (occurrenceAt cfg p) = Access \<and>
       dataStoredInStorage (ds (declarationPtr (occurrenceAt cfg p)))"
  let ?I = "\<lambda>s. (\<forall>n \<in> set (snd s). reaches cfg entry n) \<and>
    (\<forall>n \<in> dom (fst s). reaches cfg entry n) \<and>
    (\<forall>n p. p |\<in>| uninitializedVariableAccesses (infoAt (fst s) n) \<longrightarrow> ?Q p n)"
  have "?I (m, [])"
  proof (rule traverse_rule [where I = ?I, OF run])
    show "?I (Map.empty, [entry])"
      by (simp add: reaches_refl infoAt_def emptyNodeInfo_def)
  next
    fix nodeInfos cur rest
    assume inv: "?I (nodeInfos, cur # rest)"
    let ?mv = "visitNode ds cfg cur nodeInfos"
    let ?s' = "iteration ds cfg cur rest nodeInfos"
    from inv have cur: "reaches cfg entry cur" by simp
    from inv have old: "\<forall>n p. p |\<in>| uninitializedVariableAccesses (infoAt nodeInfos n) \<longrightarrow> ?Q p n"
      by (simp del: split_paired_All)
    have exits: "reaches cfg entry e" if "e \<in> set (exits (cfg cur))" for e
      using cur that by (rule reaches_exit)
    have visited: "?Q p n" if p: "p |\<in>| uninitializedVariableAccesses (infoAt ?mv n)" for p n
    proof (cases "n = cur")
      case False
      with p have "p |\<in>| uninitializedVariableAccesses (infoAt nodeInfos n)"
        by (simp add: visitNode_infoAt)
      with old show ?thesis by blast
    next
      case True
      with p have "p |\<in>| uninitializedVariableAccesses
          (transfer ds cur 0 (variableOccurrences (cfg cur)) (infoAt nodeInfos cur))"
        by (simp add: visitNode_infoAt)
      then have "p |\<in>| uninitializedVariableAccesses (infoAt nodeInfos cur) \<or>
        (\<exists>j < length (variableOccurrences (cfg cur)). p = (cur, 0 + j) \<and>
           kind (variableOccurrences (cfg cur) ! j) = Access \<and>
           dataStoredInStorage (ds (declarationPtr (variableOccurrences (cfg cur) ! j))))"
        by (rule transfer_pending_new)
      then show ?thesis
      proof
        assume "p |\<in>| uninitializedVariableAccesses (infoAt nodeInfos cur)"
        with old True show ?thesis by blast
      next
        assume "\<exists>j < length (variableOccurrences (cfg cur)). p = (cur, 0 + j) \<and>
           kind (variableOccurrences (cfg cur) ! j) = Access \<and>
           dataStoredInStorage (ds (declarationPtr (variableOccurrences (cfg cur) ! j)))"
        with cur True show ?thesis
          by (auto simp add: occurrenceAt_def reaches_refl)
      qed
    qed
    have stack: "\<forall>n \<in> set (snd ?s'). reaches cfg entry n"
      using iteration_stack [of ds cfg cur rest nodeInfos] inv exits by auto
    have dom: "\<forall>n \<in> dom (fst ?s'). reaches cfg entry n"
      using inv exits cur unfolding iteration_dom by auto
    have pending: "?Q p n" if p: "p |\<in>| uninitializedVariableAccesses (infoAt (fst ?s') n)" for p n
    proof (cases "n \<in> set (exits (cfg cur))")
      case False
      with p visited show ?thesis by (simp add: iteration_infoAt)
    next
      case True
      with p have "p |\<in>| uninitializedVariableAccesses (infoAt ?mv n) \<or>
        p |\<in>| uninitializedVariableAccesses (infoAt ?mv cur)"
        by (simp add: iteration_infoAt snd_propagateFrom)
      then show ?thesis
      proof
        assume "p |\<in>| uninitializedVariableAccesses (infoAt ?mv n)"
        then show ?thesis by (rule visited)
      next
        assume "p |\<in>| uninitializedVariableAccesses (infoAt ?mv cur)"
        then have "?Q p cur" by (rule visited)
        with True show ?thesis by (auto intro: reaches_exit)
      qed
    qed
    from stack dom pending show "?I ?s'" by blast
  qed
  then show ?thesis by simp
qed

lemma traverse_dom:
  "traverse ds cfg (Map.empty, [entry]) = Some m \<Longrightarrow> n \<in> dom m \<Longrightarrow> reaches cfg entry n"
  using traverse_origin_aux by blast

lemma traverse_pending_origin:
  "traverse ds cfg (Map.empty, [entry]) = Some m \<Longrightarrow>
   p |\<in>| uninitializedVariableAccesses (infoAt m n) \<Longrightarrow>
     reaches cfg entry (fst p) \<and> reaches cfg (fst p) n \<and>
     snd p < length (variableOccurrences (cfg (fst p))) \<and>
     kind (occurrenceAt cfg p) = Access \<and>
     dataStoredInStorage (ds (declarationPtr (occurrenceAt cfg p)))"
  using traverse_origin_aux by blast

section \<open>Facts about the sorted vector and the emission loop\<close>

lemma set_uninitializedAccessesOrdered:
  "set (uninitializedAccessesOrdered k ds cfg info) = fset (uninitializedVariableAccesses info)"
  by (simp add: uninitializedAccessesOrdered_def set_stdSort)

lemma distinct_uninitializedAccessesOrdered:
  "distinct (uninitializedAccessesOrdered k ds cfg info)"
  by (simp add: uninitializedAccessesOrdered_def distinct_stdSort sorted_list_of_fset.rep_eq)

lemma set_reportedOccurrences:
  "set (reportedOccurrences k ds cfg exit m) =
     fset (uninitializedVariableAccesses (infoAt m exit))"
  by (auto simp add: reportedOccurrences_def Let_def set_uninitializedAccessesOrdered)

lemma distinct_reportedOccurrences: "distinct (reportedOccurrences k ds cfg exit m)"
  by (simp add: reportedOccurrences_def Let_def distinct_uninitializedAccessesOrdered)

lemma reportAccess_append:
  "reportAccess ds vo errors = errors @ reportAccess ds vo []"
  by (simp add: reportAccess_def typeError_def Let_def)

lemma reportAll_append:
  "reportAll ds cfg ps errors =
     errors @ concat (map (\<lambda>p. reportAccess ds (occurrenceAt cfg p) []) ps)"
proof (induction ps arbitrary: errors)
  case Nil
  show ?case by simp
next
  case (Cons p ps)
  show ?case
    by (simp add: Cons.IH) (subst reportAccess_append, simp)
qed

lemma length_reportAccess: "length (reportAccess ds vo []) = 1"
  by (simp add: reportAccess_def typeError_def Let_def)

section \<open>Which accesses are reported\<close>

text \<open>
  Claim C3: when the loop has ended, the function appends to the reporter exactly one
  type error for each element of the vector of reported occurrences, in the order of the
  vector: its location is that of the syntax node of the occurrence, with the location of
  the declaration as secondary location, or the location of the declaration when the
  occurrence has no syntax node, and its message is the one about storage pointers. An
  occurrence is in that vector if and only if it lies in the pending accesses of the exit
  node, so there are as many diagnostics as pending accesses at the exit node. Each
  reported occurrence is an Access that sits in a node from which the exit node can be
  reached; an access in a node from which the exit node cannot be reached is never
  reported.
\<close>

theorem reported_iff_pending_at_exit:
  assumes "traverse ds cfg (Map.empty, [entry]) = Some nodeInfos"
  shows "checkUninitializedAccess k ds cfg entry exit errors =
       Some (errors @
         map (\<lambda>p.
               \<lparr>errorType = TypeError,
                errorLocation =
                  (case occurrence (occurrenceAt cfg p) of
                     Some node \<Rightarrow> node_location node
                   | None \<Rightarrow> decl_location (ds (declarationPtr (occurrenceAt cfg p)))),
                secondarySourceLocation =
                  (case occurrence (occurrenceAt cfg p) of
                     Some node \<Rightarrow>
                       [(''The variable was declared here.'',
                         decl_location (ds (declarationPtr (occurrenceAt cfg p))))]
                   | None \<Rightarrow> []),
                errorMessage =
                  ''This variable is of storage pointer type and is accessed without prior assignment.''\<rparr>)
             (reportedOccurrences k ds cfg exit nodeInfos)) \<and>
     length (reportedOccurrences k ds cfg exit nodeInfos) =
       fcard (uninitializedVariableAccesses (infoAt nodeInfos exit)) \<and>
     (\<forall>p. p \<in> set (reportedOccurrences k ds cfg exit nodeInfos) \<longleftrightarrow>
          p |\<in>| uninitializedVariableAccesses (infoAt nodeInfos exit)) \<and>
     (\<forall>p \<in> set (reportedOccurrences k ds cfg exit nodeInfos).
          kind (occurrenceAt cfg p) = Access \<and> reaches cfg (fst p) exit) \<and>
     (\<forall>n i. \<not> reaches cfg n exit \<longrightarrow>
          (n, i) \<notin> set (reportedOccurrences k ds cfg exit nodeInfos))"
proof -
  let ?error = "\<lambda>p.
       \<lparr>errorType = TypeError,
        errorLocation =
          (case occurrence (occurrenceAt cfg p) of
             Some node \<Rightarrow> node_location node
           | None \<Rightarrow> decl_location (ds (declarationPtr (occurrenceAt cfg p)))),
        secondarySourceLocation =
          (case occurrence (occurrenceAt cfg p) of
             Some node \<Rightarrow>
               [(''The variable was declared here.'',
                 decl_location (ds (declarationPtr (occurrenceAt cfg p))))]
           | None \<Rightarrow> []),
        errorMessage =
          ''This variable is of storage pointer type and is accessed without prior assignment.''\<rparr>"
  let ?reported = "reportedOccurrences k ds cfg exit nodeInfos"
  have single: "reportAccess ds (occurrenceAt cfg p) [] = [?error p]" for p
    by (cases "occurrence (occurrenceAt cfg p)")
      (simp_all add: reportAccess_def typeError_def Let_def)
  have "concat (map (\<lambda>p. reportAccess ds (occurrenceAt cfg p) []) ps) = map ?error ps" for ps
    by (induction ps) (simp_all only: single list.map concat.simps append_Cons append_Nil)
  then have emitted: "checkUninitializedAccess k ds cfg entry exit errors =
       Some (errors @ map ?error ?reported)"
    using assms by (simp only: checkUninitializedAccess_def reportAll_append option.case)
  have "length ?reported = card (set ?reported)"
    using distinct_reportedOccurrences [of k ds cfg exit nodeInfos]
    by (simp only: distinct_card)
  then have count: "length ?reported =
      fcard (uninitializedVariableAccesses (infoAt nodeInfos exit))"
    by (simp only: set_reportedOccurrences fcard.rep_eq)
  have origin: "kind (occurrenceAt cfg p) = Access \<and> reaches cfg (fst p) exit"
    if "p \<in> set ?reported" for p
    using traverse_pending_origin [OF assms, of p exit] that
    by (simp add: set_reportedOccurrences)
  have unreach: "(n, i) \<notin> set ?reported" if "\<not> reaches cfg n exit" for n i
    using origin [of "(n, i)"] that by auto
  have iff: "\<forall>p. p \<in> set ?reported \<longleftrightarrow>
      p |\<in>| uninitializedVariableAccesses (infoAt nodeInfos exit)"
    by (simp add: set_reportedOccurrences)
  from emitted count iff origin unreach show ?thesis
    by blast
qed

lemma reaches_no_exits: "exits (cfg a) = [] \<Longrightarrow> reaches cfg a b \<Longrightarrow> b = a"
  unfolding reaches_def cfgEdges_def
  by (erule converse_rtranclE) auto

theorem reported_iff_pending_at_exit_witness:
  "map_option (reportedOccurrences exKindOrdinal exDecls cfgRevert 3)
     (traverse exDecls cfgRevert (Map.empty, [0])) = Some [(2, 0)] \<and>
   map_option (\<lambda>m. uninitializedVariableAccesses (infoAt m 3))
     (traverse exDecls cfgRevert (Map.empty, [0])) = Some {|(2, 0)|} \<and>
   \<not> reaches cfgRevert 1 3 \<and> reaches cfgRevert 2 3 \<and>
   occurrenceAt cfgRevert (1, 0) = occAt Access 1 31 \<and>
   occurrenceAt cfgRevert (2, 0) = occAt Access 1 32 \<and>
   checkUninitializedAccess exKindOrdinal exDecls cfgRevert 0 3 [] =
     Some [\<lparr>errorType = TypeError, errorLocation = exLocation 32,
            secondarySourceLocation = [(''The variable was declared here.'', exLocation 1)],
            errorMessage =
              ''This variable is of storage pointer type and is accessed without prior assignment.''\<rparr>]"
proof -
  have eval: "map_option (reportedOccurrences exKindOrdinal exDecls cfgRevert 3)
     (traverse exDecls cfgRevert (Map.empty, [0])) = Some [(2, 0)]"
    by (simp add: traverse.simps iteration_def visitNode_def cfgRevert_def block_def
        occ_def occAt_def exDecls_def infoAt_def emptyNodeInfo_def applyOccurrence_def
        propagateFrom_def Let_def fcard_finsert_if reportedOccurrences_def
        uninitializedAccessesOrdered_def stdSort_def sorted_list_of_fset.rep_eq)
  have pending: "map_option (\<lambda>m. uninitializedVariableAccesses (infoAt m 3))
     (traverse exDecls cfgRevert (Map.empty, [0])) = Some {|(2, 0)|}"
    by (simp add: traverse.simps iteration_def visitNode_def cfgRevert_def block_def
        occ_def occAt_def exDecls_def infoAt_def emptyNodeInfo_def applyOccurrence_def
        propagateFrom_def Let_def fcard_finsert_if)
  from eval obtain m where m: "traverse exDecls cfgRevert (Map.empty, [0]) = Some m"
    and reported: "reportedOccurrences exKindOrdinal exDecls cfgRevert 3 m = [(2, 0)]"
    by auto
  have at: "occurrenceAt cfgRevert (1, 0) = occAt Access 1 31"
    "occurrenceAt cfgRevert (2, 0) = occAt Access 1 32"
    by (simp_all add: occurrenceAt_def cfgRevert_def block_def)
  have "exits (cfgRevert 1) = []"
    by (simp add: cfgRevert_def block_def)
  then have no: "\<not> reaches cfgRevert 1 3"
    using reaches_no_exits [of cfgRevert 1 3] by auto
  note c3 = reported_iff_pending_at_exit [OF m, of exKindOrdinal 3 "[]"]
  from c3 reported have "reaches cfgRevert (fst (2::nat, 0::nat)) 3"
    by simp
  then have yes: "reaches cfgRevert 2 3" by simp
  from c3 have "checkUninitializedAccess exKindOrdinal exDecls cfgRevert 0 3 [] =
     Some ([] @ map (\<lambda>p.
               \<lparr>errorType = TypeError,
                errorLocation =
                  (case occurrence (occurrenceAt cfgRevert p) of
                     Some node \<Rightarrow> node_location node
                   | None \<Rightarrow> decl_location (exDecls (declarationPtr (occurrenceAt cfgRevert p)))),
                secondarySourceLocation =
                  (case occurrence (occurrenceAt cfgRevert p) of
                     Some node \<Rightarrow>
                       [(''The variable was declared here.'',
                         decl_location (exDecls (declarationPtr (occurrenceAt cfgRevert p))))]
                   | None \<Rightarrow> []),
                errorMessage =
                  ''This variable is of storage pointer type and is accessed without prior assignment.''\<rparr>)
             (reportedOccurrences exKindOrdinal exDecls cfgRevert 3 m))"
    by (rule conjunct1)
  then have emitted: "checkUninitializedAccess exKindOrdinal exDecls cfgRevert 0 3 [] =
     Some [\<lparr>errorType = TypeError, errorLocation = exLocation 32,
            secondarySourceLocation = [(''The variable was declared here.'', exLocation 1)],
            errorMessage =
              ''This variable is of storage pointer type and is accessed without prior assignment.''\<rparr>]"
    by (simp add: reported at occAt_def exDecls_def)
  from eval pending no yes at emitted show ?thesis
    by blast
qed

text \<open>
  Claim C9: the vector of reported occurrences holds no occurrence twice, and the
  diagnostics that one analysis of a function adds to the reporter are, position by
  position, the diagnostics of the elements of that vector: one per distinct access,
  however many paths lead to it and however often its node is visited.
\<close>

theorem one_diagnostic_per_access:
  assumes "traverse ds cfg (Map.empty, [entry]) = Some nodeInfos"
  shows "distinct (reportedOccurrences k ds cfg exit nodeInfos) \<and>
     checkUninitializedAccess k ds cfg entry exit errors =
       Some (errors @ map (\<lambda>p. hd (reportAccess ds (occurrenceAt cfg p) []))
                        (reportedOccurrences k ds cfg exit nodeInfos))"
proof -
  have "concat (map (\<lambda>p. reportAccess ds (occurrenceAt cfg p) []) ps) =
      map (\<lambda>p. hd (reportAccess ds (occurrenceAt cfg p) [])) ps" for ps
    by (induction ps) (simp_all add: reportAccess_def typeError_def Let_def)
  with assms show ?thesis
    by (simp add: checkUninitializedAccess_def reportAll_append distinct_reportedOccurrences)
qed

theorem one_diagnostic_per_access_witness:
  "map_option (reportedOccurrences exKindOrdinal exDecls cfgLoop 3)
     (traverse exDecls cfgLoop (Map.empty, [0])) = Some [(1, 0)] \<and>
   checkUninitializedAccess exKindOrdinal exDecls cfgLoop 0 3 [] =
     Some [hd (reportAccess exDecls (occurrenceAt cfgLoop (1, 0)) [])]"
proof -
  have eval: "map_option (reportedOccurrences exKindOrdinal exDecls cfgLoop 3)
     (traverse exDecls cfgLoop (Map.empty, [0])) = Some [(1, 0)]"
    by (simp add: traverse.simps iteration_def visitNode_def cfgLoop_def block_def
        occ_def occAt_def exDecls_def infoAt_def emptyNodeInfo_def applyOccurrence_def
        propagateFrom_def Let_def fcard_finsert_if reportedOccurrences_def
        uninitializedAccessesOrdered_def stdSort_def sorted_list_of_fset.rep_eq)
  then obtain m where m: "traverse exDecls cfgLoop (Map.empty, [0]) = Some m"
    and reported: "reportedOccurrences exKindOrdinal exDecls cfgLoop 3 m = [(1, 0)]"
    by auto
  from one_diagnostic_per_access [OF m, of exKindOrdinal 3 "[]"] reported eval
  show ?thesis by simp
qed

section \<open>Accesses after an assignment in the same block\<close>

lemma applyOccurrence_unassigned:
  "unassignedVariables (applyOccurrence ds p vo info) =
     (case kind vo of
        Declaration \<Rightarrow> finsert (declarationPtr vo) (unassignedVariables info)
      | Access \<Rightarrow> unassignedVariables info
      | Assignment \<Rightarrow> unassignedVariables info |-| {|declarationPtr vo|}
      | InlineAssembly \<Rightarrow> unassignedVariables info |-| {|declarationPtr vo|})"
  by (cases "kind vo") (simp_all add: applyOccurrence_def)

lemma transfer_stays_assigned:
  "d |\<notin>| unassignedVariables info \<Longrightarrow>
   \<forall>v \<in> set vos. \<not> (kind v = Declaration \<and> declarationPtr v = d) \<Longrightarrow>
   d |\<notin>| unassignedVariables (transfer ds n i vos info)"
proof (induction vos arbitrary: i info)
  case Nil
  then show ?case by simp
next
  case (Cons vo vos)
  have "d |\<notin>| unassignedVariables (applyOccurrence ds (n, i) vo info)"
    using Cons.prems by (cases "kind vo") (auto simp add: applyOccurrence_unassigned)
  with Cons.IH Cons.prems(2) show ?case by simp
qed

lemma transfer_not_inserted:
  "p |\<notin>| uninitializedVariableAccesses info \<Longrightarrow>
   fst p \<noteq> n \<or> snd p < i \<or> i + length vos \<le> snd p \<Longrightarrow>
   p |\<notin>| uninitializedVariableAccesses (transfer ds n i vos info)"
  using transfer_pending_new [of p ds n i vos info] by auto

text \<open>
  In a block \<open>pre @ a # mid @ r # post\<close> where \<open>a\<close> assigns the variable of \<open>r\<close> and
  \<open>mid\<close> does not declare it, the transfer does not insert the address of \<open>r\<close>.
\<close>

lemma transfer_shadowed:
  assumes a: "kind a = Assignment \<or> kind a = InlineAssembly"
    and same: "declarationPtr a = declarationPtr r"
    and mid: "\<forall>v \<in> set mid. \<not> (kind v = Declaration \<and> declarationPtr v = declarationPtr r)"
    and before: "(n, length pre + 1 + length mid) |\<notin>| uninitializedVariableAccesses info"
  shows "(n, length pre + 1 + length mid) |\<notin>|
    uninitializedVariableAccesses (transfer ds n 0 (pre @ a # mid @ r # post) info)"
proof -
  let ?q = "(n, length pre + 1 + length mid)"
  let ?d = "declarationPtr r"
  let ?info1 = "transfer ds n 0 pre info"
  let ?info2 = "applyOccurrence ds (n, length pre) a ?info1"
  let ?info3 = "transfer ds n (Suc (length pre)) mid ?info2"
  let ?info4 = "applyOccurrence ds ?q r ?info3"
  let ?info5 = "transfer ds n (Suc (Suc (length pre + length mid))) post ?info4"
  have split: "transfer ds n 0 (pre @ a # mid @ r # post) info = ?info5"
    by (simp add: transfer_append)
  have q1: "?q |\<notin>| uninitializedVariableAccesses ?info1"
    using before by (rule transfer_not_inserted) simp
  have q2: "?q |\<notin>| uninitializedVariableAccesses ?info2"
    using q1 a by (auto simp add: applyOccurrence_pending)
  have d2: "?d |\<notin>| unassignedVariables ?info2"
    using a same by (auto simp add: applyOccurrence_unassigned)
  have q3: "?q |\<notin>| uninitializedVariableAccesses ?info3"
    using q2 by (rule transfer_not_inserted) simp
  have d3: "?d |\<notin>| unassignedVariables ?info3"
    using d2 mid by (rule transfer_stays_assigned)
  have q4: "?q |\<notin>| uninitializedVariableAccesses ?info4"
    using q3 d3 by (simp add: applyOccurrence_pending)
  have "?q |\<notin>| uninitializedVariableAccesses ?info5"
    using q4 by (rule transfer_not_inserted) simp
  with split show ?thesis by simp
qed

text \<open>
  Claim C8, as stated: an Access that an Assignment or InlineAssembly of the same
  declaration precedes in its block is never reported. In \<open>cfgRedeclared\<close> the block of
  the entry assigns variable 1, declares it and then reads it: the read at position 2
  is preceded by the assignment at position 0, and it is reported.
\<close>

theorem access_after_assignment_counterexample:
  "occurrenceAt cfgRedeclared (0, 0) = occAt Assignment 1 31 \<and>
   occurrenceAt cfgRedeclared (0, 2) = occAt Access 1 32 \<and>
   map_option (reportedOccurrences exKindOrdinal exDecls cfgRedeclared 1)
     (traverse exDecls cfgRedeclared (Map.empty, [0])) = Some [(0, 2)] \<and>
   checkUninitializedAccess exKindOrdinal exDecls cfgRedeclared 0 1 [] =
     Some (reportAccess exDecls (occAt Access 1 32) [])"
  by (simp add: traverse.simps iteration_def visitNode_def cfgRedeclared_def block_def
      occ_def occAt_def exDecls_def infoAt_def emptyNodeInfo_def applyOccurrence_def
      propagateFrom_def Let_def fcard_finsert_if reportedOccurrences_def
      uninitializedAccessesOrdered_def stdSort_def sorted_list_of_fset.rep_eq
      occurrenceAt_def checkUninitializedAccess_def)

text \<open>
  Claim C8, amended: an occurrence \<open>r\<close> that an Assignment or InlineAssembly \<open>a\<close> of the
  same declaration precedes in its block, with no Declaration of that declaration between
  the two, is never reported, whichever node is the exit.
\<close>

theorem access_after_assignment_not_reported:
  assumes run: "traverse ds cfg (Map.empty, [entry]) = Some nodeInfos"
    and block: "variableOccurrences (cfg n) = pre @ a # mid @ r # post"
    and a: "kind a = Assignment \<or> kind a = InlineAssembly"
    and same: "declarationPtr a = declarationPtr r"
    and mid: "\<forall>v \<in> set mid. \<not> (kind v = Declaration \<and> declarationPtr v = declarationPtr r)"
  shows "(n, length pre + 1 + length mid) \<notin> set (reportedOccurrences k ds cfg exit nodeInfos)"
proof -
  let ?q = "(n, length pre + 1 + length mid)"
  let ?I = "\<lambda>s :: NodeInfos \<times> nat list.
    \<forall>n'. ?q |\<notin>| uninitializedVariableAccesses (infoAt (fst s) n')"
  have "?I (nodeInfos, [])"
  proof (rule traverse_rule [where I = ?I, OF run])
    show "?I (Map.empty, [entry])"
      by (simp add: infoAt_def emptyNodeInfo_def)
  next
    fix m cur rest
    assume "?I (m, cur # rest)"
    then have inv: "?q |\<notin>| uninitializedVariableAccesses (infoAt m n')" for n'
      by simp
    have visited: "?q |\<notin>| uninitializedVariableAccesses (infoAt (visitNode ds cfg cur m) n')"
      for n'
    proof (cases "n' = cur")
      case False
      with inv show ?thesis by (simp add: visitNode_infoAt)
    next
      case True
      show ?thesis
      proof (cases "cur = n")
        case True
        with \<open>n' = cur\<close> show ?thesis
          using transfer_shadowed [OF a same mid inv [of n], of ds post]
          by (simp add: visitNode_infoAt block)
      next
        case False
        with \<open>n' = cur\<close> show ?thesis
          using transfer_not_inserted [OF inv [of cur], of cur 0 "variableOccurrences (cfg cur)" ds]
          by (simp add: visitNode_infoAt)
      qed
    qed
    show "?I (iteration ds cfg cur rest m)"
      using visited by (simp add: iteration_infoAt snd_propagateFrom)
  qed
  then show ?thesis
    by (simp add: set_reportedOccurrences)
qed

theorem access_after_assignment_not_reported_witness:
  "variableOccurrences (cfgAssigned 0) =
     [occ Declaration 1] @ occAt Assignment 1 31 # [occ Declaration 2] @ occAt Access 1 32 # [] \<and>
   map_option (reportedOccurrences exKindOrdinal exDecls cfgAssigned 1)
     (traverse exDecls cfgAssigned (Map.empty, [0])) = Some [] \<and>
   (0, 3) \<notin> set (reportedOccurrences exKindOrdinal exDecls cfgAssigned 1
                    (the (traverse exDecls cfgAssigned (Map.empty, [0]))))"
proof -
  have eval: "map_option (reportedOccurrences exKindOrdinal exDecls cfgAssigned 1)
     (traverse exDecls cfgAssigned (Map.empty, [0])) = Some []"
    by (simp add: traverse.simps iteration_def visitNode_def cfgAssigned_def block_def
        occ_def occAt_def exDecls_def infoAt_def emptyNodeInfo_def applyOccurrence_def
        propagateFrom_def Let_def fcard_finsert_if reportedOccurrences_def
        uninitializedAccessesOrdered_def stdSort_def sorted_list_of_fset.rep_eq)
  then obtain m where m: "traverse exDecls cfgAssigned (Map.empty, [0]) = Some m"
    by auto
  have block: "variableOccurrences (cfgAssigned 0) =
     [occ Declaration 1] @ occAt Assignment 1 31 # [occ Declaration 2] @ occAt Access 1 32 # []"
    by (simp add: cfgAssigned_def block_def)
  have a: "kind (occAt Assignment 1 31) = Assignment \<or> kind (occAt Assignment 1 31) = InlineAssembly"
    by (simp add: occAt_def)
  have same: "declarationPtr (occAt Assignment 1 31) = declarationPtr (occAt Access 1 32)"
    by (simp add: occAt_def)
  have mid: "\<forall>v \<in> set [occ Declaration 2]. \<not> (kind v = Declaration \<and>
      declarationPtr v = declarationPtr (occAt Access 1 32))"
    by (simp add: occ_def occAt_def)
  from access_after_assignment_not_reported [OF m block a same mid, of exKindOrdinal 1]
    block eval m
  show ?thesis by simp
qed

section \<open>How the stored sets change\<close>

text \<open>
  Claim C6, as stated: every update of \<open>NodeInfo(N)\<close> during the loop preserves
  inclusion on both components. In \<open>cfgKill\<close> the first run of the loop body (on the
  entry) leaves node 1 on the stack with variable 1 in its unassigned set, and the second
  run (on node 1) removes it: the unassigned set of node 1 shrinks from \<open>{1}\<close> to the
  empty set.
\<close>

theorem unassigned_not_monotone_counterexample:
  "snd (iteration exDecls cfgKill 0 [] Map.empty) = [1] \<and>
   unassignedVariables (infoAt (fst (iteration exDecls cfgKill 0 [] Map.empty)) 1) = {|1|} \<and>
   unassignedVariables
     (infoAt (fst (iteration exDecls cfgKill 1 []
                     (fst (iteration exDecls cfgKill 0 [] Map.empty)))) 1) = {||} \<and>
   \<not> unassignedVariables (infoAt (fst (iteration exDecls cfgKill 0 [] Map.empty)) 1) |\<subseteq>|
     unassignedVariables
       (infoAt (fst (iteration exDecls cfgKill 1 []
                       (fst (iteration exDecls cfgKill 0 [] Map.empty)))) 1)"
  by (simp add: iteration_def visitNode_def cfgKill_def block_def occ_def occAt_def
      infoAt_def emptyNodeInfo_def applyOccurrence_def propagateFrom_def Let_def
      fcard_finsert_if)

lemma iteration_pending_mono:
  "uninitializedVariableAccesses (infoAt m n) |\<subseteq>|
     uninitializedVariableAccesses (infoAt (fst (iteration ds cfg cur rest m)) n)"
proof -
  have "uninitializedVariableAccesses (infoAt m n) |\<subseteq>|
      uninitializedVariableAccesses (infoAt (visitNode ds cfg cur m) n)"
    by (simp add: visitNode_infoAt transfer_pending_mono)
  also have "\<dots> |\<subseteq>|
      uninitializedVariableAccesses (infoAt (fst (iteration ds cfg cur rest m)) n)"
    by (simp add: iteration_infoAt snd_propagateFrom)
  finally show ?thesis .
qed

lemma iteration_unassigned_mono:
  "n \<noteq> cur \<Longrightarrow>
   unassignedVariables (infoAt m n) |\<subseteq>|
     unassignedVariables (infoAt (fst (iteration ds cfg cur rest m)) n)"
  by (simp add: iteration_infoAt snd_propagateFrom visitNode_infoAt)

text \<open>
  Claim C6, amended: \<^verbatim>\<open>propagateFrom\<close> preserves inclusion on both components of its
  receiver; every run of the loop body preserves inclusion on the pending accesses of
  every node and on the unassigned set of every node other than the one it visits; and
  the pending accesses of a node at any state of the loop are included in those the node
  has when the loop ends.
\<close>

theorem updates_monotone:
  "unassignedVariables this |\<subseteq>| unassignedVariables (snd (propagateFrom this other)) \<and>
   uninitializedVariableAccesses this |\<subseteq>|
     uninitializedVariableAccesses (snd (propagateFrom this other)) \<and>
   uninitializedVariableAccesses (infoAt m n) |\<subseteq>|
     uninitializedVariableAccesses (infoAt (fst (iteration ds cfg cur rest m)) n) \<and>
   (n \<noteq> cur \<longrightarrow>
      unassignedVariables (infoAt m n) |\<subseteq>|
        unassignedVariables (infoAt (fst (iteration ds cfg cur rest m)) n)) \<and>
   (traverse ds cfg (m, st) = Some m' \<longrightarrow>
      uninitializedVariableAccesses (infoAt m n) |\<subseteq>|
        uninitializedVariableAccesses (infoAt m' n))"
proof -
  have "uninitializedVariableAccesses (infoAt m n) |\<subseteq>|
      uninitializedVariableAccesses (infoAt m' n)"
    if run: "traverse ds cfg (m, st) = Some m'"
  proof -
    let ?I = "\<lambda>s :: NodeInfos \<times> nat list.
      uninitializedVariableAccesses (infoAt m n) |\<subseteq>|
        uninitializedVariableAccesses (infoAt (fst s) n)"
    have "?I (m', [])"
    proof (rule traverse_rule [where I = ?I, OF run])
      show "?I (m, st)" by simp
    next
      fix nodeInfos currentNode rest'
      assume "?I (nodeInfos, currentNode # rest')"
      then show "?I (iteration ds cfg currentNode rest' nodeInfos)"
        using iteration_pending_mono [of nodeInfos n ds cfg currentNode rest'] by auto
    qed
    then show ?thesis by simp
  qed
  then show ?thesis
    by (simp add: iteration_pending_mono iteration_unassigned_mono snd_propagateFrom)
qed

theorem updates_monotone_witness:
  "(1::nat) \<noteq> 0 \<and>
   traverse exDecls cfgLoop (Map.empty, [0]) =
     traverse exDecls cfgLoop (iteration exDecls cfgLoop 0 [] Map.empty) \<and>
   traverse exDecls cfgLoop (iteration exDecls cfgLoop 0 [] Map.empty) \<noteq> None \<and>
   unassignedVariables (infoAt Map.empty 1) |\<subseteq>|
     unassignedVariables (infoAt (fst (iteration exDecls cfgLoop 0 [] Map.empty)) 1) \<and>
   unassignedVariables (infoAt (fst (iteration exDecls cfgLoop 0 [] Map.empty)) 1) = {|1|} \<and>
   uninitializedVariableAccesses
       (infoAt (fst (iteration exDecls cfgLoop 1 [] (fst (iteration exDecls cfgLoop 0 [] Map.empty)))) 1)
     |\<subseteq>| uninitializedVariableAccesses
       (infoAt (the (traverse exDecls cfgLoop (Map.empty, [0]))) 1) \<and>
   uninitializedVariableAccesses
       (infoAt (fst (iteration exDecls cfgLoop 1 [] (fst (iteration exDecls cfgLoop 0 [] Map.empty)))) 1)
     = {|(1, 0)|}"
proof -
  let ?s1 = "iteration exDecls cfgLoop 0 [] Map.empty"
  let ?s2 = "iteration exDecls cfgLoop 1 [] (fst ?s1)"
  have s1: "snd ?s1 = [1]"
    by (simp add: iteration_def visitNode_def cfgLoop_def block_def occ_def occAt_def
        infoAt_def emptyNodeInfo_def applyOccurrence_def propagateFrom_def Let_def
        fcard_finsert_if)
  have step0: "traverse exDecls cfgLoop (Map.empty, [0]) = traverse exDecls cfgLoop ?s1"
    by (subst traverse.simps) simp
  have step1: "traverse exDecls cfgLoop ?s1 = traverse exDecls cfgLoop ?s2"
    by (subst traverse.simps) (simp add: s1)
  have ends: "traverse exDecls cfgLoop (Map.empty, [0]) \<noteq> None"
    by (simp add: traverse.simps iteration_def visitNode_def cfgLoop_def block_def
        occ_def occAt_def exDecls_def infoAt_def emptyNodeInfo_def applyOccurrence_def
        propagateFrom_def Let_def fcard_finsert_if)
  then obtain m' where m': "traverse exDecls cfgLoop (Map.empty, [0]) = Some m'"
    by auto
  with step0 step1 have run2: "traverse exDecls cfgLoop (fst ?s2, snd ?s2) = Some m'"
    by simp
  have vals: "unassignedVariables (infoAt (fst ?s1) 1) = {|1|}"
    "uninitializedVariableAccesses (infoAt (fst ?s2) 1) = {|(1, 0)|}"
    by (simp_all add: iteration_def visitNode_def cfgLoop_def block_def occ_def occAt_def
        exDecls_def infoAt_def emptyNodeInfo_def applyOccurrence_def propagateFrom_def Let_def
        fcard_finsert_if)
  from updates_monotone [of emptyNodeInfo emptyNodeInfo Map.empty 1 exDecls cfgLoop 0 "[]" "[]" m']
    updates_monotone [of emptyNodeInfo emptyNodeInfo "fst ?s2" 1 exDecls cfgLoop 0 "[]" "snd ?s2" m']
    run2 m' step0 ends vals
  show ?thesis by simp
qed

section \<open>A loop that does not end\<close>

lemma traverse_diverges:
  assumes init: "J s"
    and step: "\<And>m cur rest. J (m, cur # rest) \<Longrightarrow> J (iteration ds cfg cur rest m)"
    and stop: "\<And>m. \<not> J (m, [])"
  shows "traverse ds cfg s = None"
proof (cases "traverse ds cfg s")
  case None
  then show ?thesis .
next
  case (Some m)
  from Some init step have "J (m, [])" by (rule traverse_rule)
  with stop show ?thesis by blast
qed

lemmas iteration_unfold =
  iteration_def propagateToExits_Cons propagateToExits_infoAt fst_propagateFrom
  snd_propagateFrom visitNode_infoAt infoAt_upd block_def occ_def occAt_def applyOccurrence_def

text \<open>
  In \<open>cfgToggle\<close> a visit of the entry removes variable 2 from the stored set of the entry
  and hands variable 1 to node 1; a visit of node 1 removes variable 1 from the stored set
  of node 1 and hands variable 2 to the entry. Each hand-over makes the receiving set
  grow, so each visit pushes the other node.
\<close>

lemma toggle_visit_entry:
  assumes "1 |\<notin>| unassignedVariables (infoAt m 1)"
  shows "snd (iteration ds cfgToggle 0 rest m) = 1 # rest \<and>
    2 |\<notin>| unassignedVariables (infoAt (fst (iteration ds cfgToggle 0 rest m)) 0)"
  using assms
  by (auto simp add: iteration_unfold cfgToggle_def simp del: propagateToExits.simps(2))

lemma toggle_visit_body:
  assumes "2 |\<notin>| unassignedVariables (infoAt m 0)"
  shows "(snd (iteration ds cfgToggle 1 rest m) = 0 # rest \<or>
     snd (iteration ds cfgToggle 1 rest m) = 2 # 0 # rest) \<and>
    1 |\<notin>| unassignedVariables (infoAt (fst (iteration ds cfgToggle 1 rest m)) 1)"
  using assms
  by (auto simp add: iteration_unfold cfgToggle_def simp del: propagateToExits.simps(2))

lemma toggle_visit_exit:
  assumes "1 |\<notin>| unassignedVariables (infoAt m 1)"
  shows "snd (iteration ds cfgToggle 2 rest m) = rest \<and>
    1 |\<notin>| unassignedVariables (infoAt (fst (iteration ds cfgToggle 2 rest m)) 1)"
  using assms
  by (auto simp add: iteration_unfold cfgToggle_def simp del: propagateToExits.simps(2))

text \<open>
  Claim C7 says that the worklist loop ends on every control-flow graph with finitely
  many nodes, declarations and occurrences. On \<open>cfgToggle\<close>, which has three nodes, two
  declarations and four occurrences, the stack is never empty: the loop does not end,
  and \<^verbatim>\<open>checkUninitializedAccess\<close> does not return.
\<close>

theorem worklist_diverges_on_toggle:
  "traverse exDecls cfgToggle (Map.empty, [0]) = None \<and>
   checkUninitializedAccess exKindOrdinal exDecls cfgToggle 0 2 [] = None"
proof -
  let ?J = "\<lambda>s :: NodeInfos \<times> nat list.
    (snd s = [0] \<or> snd s = [2, 0]) \<and> 1 |\<notin>| unassignedVariables (infoAt (fst s) 1) \<or>
    snd s = [1] \<and> 2 |\<notin>| unassignedVariables (infoAt (fst s) 0)"
  have "traverse exDecls cfgToggle (Map.empty, [0]) = None"
  proof (rule traverse_diverges [where J = ?J])
    show "?J (Map.empty, [0])"
      by (simp add: infoAt_def emptyNodeInfo_def)
  next
    fix m
    show "\<not> ?J (m, [])" by simp
  next
    fix m cur rest
    assume "?J (m, cur # rest)"
    then consider
      "cur = 0" "rest = []" "1 |\<notin>| unassignedVariables (infoAt m 1)"
      | "cur = 2" "rest = [0]" "1 |\<notin>| unassignedVariables (infoAt m 1)"
      | "cur = 1" "rest = []" "2 |\<notin>| unassignedVariables (infoAt m 0)"
      by auto
    then show "?J (iteration exDecls cfgToggle cur rest m)"
    proof cases
      case 1
      with toggle_visit_entry [of m exDecls "[]"] show ?thesis by simp
    next
      case 2
      with toggle_visit_exit [of m exDecls "[0]"] show ?thesis by simp
    next
      case 3
      with toggle_visit_body [of m exDecls "[]"] show ?thesis by auto
    qed
  qed
  then show ?thesis
    by (simp add: checkUninitializedAccess_def)
qed

section \<open>An exit node that cannot be reached\<close>

text \<open>
  Whenever the loop ends and the exit node cannot be reached from the entry, the map
  holds no entry for the exit node, the vector of reported occurrences is empty and the
  reporter is returned as it was.
\<close>

lemma unreachable_exit_no_diagnostics:
  assumes run: "traverse ds cfg (Map.empty, [entry]) = Some nodeInfos"
    and unreachable: "\<not> reaches cfg entry exit"
  shows "nodeInfos exit = None \<and> reportedOccurrences k ds cfg exit nodeInfos = [] \<and>
    checkUninitializedAccess k ds cfg entry exit errors = Some errors"
proof -
  have none: "nodeInfos exit = None"
    using traverse_dom [OF run, of exit] unreachable by auto
  then have "reportedOccurrences k ds cfg exit nodeInfos = []"
    by (simp add: reportedOccurrences_def infoAt_def emptyNodeInfo_def)
  with none run show ?thesis
    by (simp add: checkUninitializedAccess_def)
qed

lemma toggleNoExit_visit_entry:
  assumes "1 |\<notin>| unassignedVariables (infoAt m 1)"
  shows "snd (iteration ds cfgToggleNoExit 0 rest m) = 1 # rest \<and>
    2 |\<notin>| unassignedVariables (infoAt (fst (iteration ds cfgToggleNoExit 0 rest m)) 0)"
  using assms
  by (auto simp add: iteration_unfold cfgToggleNoExit_def simp del: propagateToExits.simps(2))

lemma toggleNoExit_visit_body:
  assumes "2 |\<notin>| unassignedVariables (infoAt m 0)"
  shows "snd (iteration ds cfgToggleNoExit 1 rest m) = 0 # rest \<and>
    1 |\<notin>| unassignedVariables (infoAt (fst (iteration ds cfgToggleNoExit 1 rest m)) 1)"
  using assms
  by (auto simp add: iteration_unfold cfgToggleNoExit_def simp del: propagateToExits.simps(2))

lemma toggleNoExit_unreachable: "\<not> reaches cfgToggleNoExit 0 2"
proof
  assume "reaches cfgToggleNoExit 0 2"
  then have "(0, 2) \<in> (cfgEdges cfgToggleNoExit)\<^sup>*"
    by (simp add: reaches_def)
  moreover have "(0, n) \<in> (cfgEdges cfgToggleNoExit)\<^sup>* \<Longrightarrow> n = 0 \<or> n = 1" for n
    by (induction rule: rtrancl_induct)
      (auto simp add: cfgEdges_def cfgToggleNoExit_def block_def split: if_splits)
  ultimately show False by fastforce
qed

text \<open>
  Claim C10 says that the function returns normally, with no diagnostic, whenever the
  exit node cannot be reached from the entry. In \<open>cfgToggleNoExit\<close> node 2 cannot be
  reached from the entry 0, and with node 2 as the exit node the function does not
  return.
\<close>

theorem unreachable_exit_diverges:
  "\<not> reaches cfgToggleNoExit 0 2 \<and>
   checkUninitializedAccess exKindOrdinal exDecls cfgToggleNoExit 0 2 [] = None"
proof -
  let ?J = "\<lambda>s :: NodeInfos \<times> nat list.
    snd s = [0] \<and> 1 |\<notin>| unassignedVariables (infoAt (fst s) 1) \<or>
    snd s = [1] \<and> 2 |\<notin>| unassignedVariables (infoAt (fst s) 0)"
  have "traverse exDecls cfgToggleNoExit (Map.empty, [0]) = None"
  proof (rule traverse_diverges [where J = ?J])
    show "?J (Map.empty, [0])"
      by (simp add: infoAt_def emptyNodeInfo_def)
  next
    fix m
    show "\<not> ?J (m, [])" by simp
  next
    fix m cur rest
    assume "?J (m, cur # rest)"
    then consider
      "cur = 0" "rest = []" "1 |\<notin>| unassignedVariables (infoAt m 1)"
      | "cur = 1" "rest = []" "2 |\<notin>| unassignedVariables (infoAt m 0)"
      by auto
    then show "?J (iteration exDecls cfgToggleNoExit cur rest m)"
    proof cases
      case 1
      with toggleNoExit_visit_entry [of m exDecls "[]"] show ?thesis by simp
    next
      case 2
      with toggleNoExit_visit_body [of m exDecls "[]"] show ?thesis by simp
    qed
  qed
  with toggleNoExit_unreachable show ?thesis
    by (simp add: checkUninitializedAccess_def)
qed

section \<open>The driver and the reporter\<close>

lemma checkUninitializedAccess_appends:
  "checkUninitializedAccess k ds cfg entry exit errors =
     map_option ((@) errors) (checkUninitializedAccess k ds cfg entry exit [])"
  by (cases "traverse ds cfg (Map.empty, [entry])")
    (simp_all add: checkUninitializedAccess_def reportAll_append)

lemma visit_appends:
  "visit k ds cfg f errors = map_option ((@) errors) (visit k ds cfg f [])"
  using checkUninitializedAccess_appends [of k ds cfg _ _ errors]
  by (simp add: visit_def)

lemma accept_appends:
  "accept k ds cfg fs errors = map_option ((@) errors) (accept k ds cfg fs [])"
proof (induction fs arbitrary: errors)
  case Nil
  show ?case by simp
next
  case (Cons f fs)
  show ?case
  proof (cases "visit k ds cfg f []")
    case None
    then show ?thesis
      using visit_appends [of k ds cfg f errors] by simp
  next
    case (Some v)
    then have "visit k ds cfg f errors = Some (errors @ v)"
      using visit_appends [of k ds cfg f errors] by simp
    with Some show ?thesis
      using Cons.IH [of "errors @ v"] Cons.IH [of v]
      by (simp add: option.map_comp comp_def)
  qed
qed

lemma reportAccess_type: "e \<in> set (reportAccess ds vo []) \<Longrightarrow> errorType e = TypeError"
  by (simp add: reportAccess_def typeError_def Let_def)

lemma checkUninitializedAccess_type:
  "checkUninitializedAccess k ds cfg entry exit [] = Some emitted \<Longrightarrow>
   e \<in> set emitted \<Longrightarrow> errorType e = TypeError"
  by (cases "traverse ds cfg (Map.empty, [entry])")
    (auto simp add: checkUninitializedAccess_def reportAll_append dest: reportAccess_type)

lemma accept_type:
  "accept k ds cfg fs [] = Some emitted \<Longrightarrow> e \<in> set emitted \<Longrightarrow> errorType e = TypeError"
proof (induction fs arbitrary: emitted)
  case Nil
  then show ?case by simp
next
  case (Cons f fs)
  from Cons.prems(1) obtain v where v: "visit k ds cfg f [] = Some v"
    and rest: "accept k ds cfg fs v = Some emitted"
    by (auto split: option.splits)
  from rest obtain w where w: "accept k ds cfg fs [] = Some w" and emitted: "emitted = v @ w"
    using accept_appends [of k ds cfg fs v] by auto
  have "errorType e = TypeError" if "e \<in> set v"
    using v that checkUninitializedAccess_type [of k ds cfg _ _ v e]
    by (auto simp add: visit_def split: if_splits)
  with Cons.IH [OF w] Cons.prems(2) emitted show ?case by auto
qed

text \<open>
  Claim C5, as stated: \<^verbatim>\<open>analyze\<close> returns true if and only if no error-level diagnostic
  was emitted during that analysis. With a reporter that already holds an error, the
  analysis of a tree whose only function yields no diagnostic emits nothing and returns
  false.
\<close>

theorem analyze_prior_error_counterexample:
  "\<not> containsOnlyWarnings [priorError] \<and>
   analyze exKindOrdinal exDecls cfgAssigned [funMixed] [priorError] =
     Some (False, [priorError])"
  by (simp add: analyze_def visit_def funMixed_def checkUninitializedAccess_def
      containsOnlyWarnings_def priorError_def
      traverse.simps iteration_def visitNode_def cfgAssigned_def block_def
      occ_def occAt_def exDecls_def infoAt_def emptyNodeInfo_def applyOccurrence_def
      propagateFrom_def Let_def fcard_finsert_if reportedOccurrences_def)

text \<open>
  Claim C5, amended: \<^verbatim>\<open>analyze\<close> returns true if and only if the reporter holds only
  warnings after the analysis, that is, if and only if it held only warnings before the
  call and the analysis emitted no diagnostic; every diagnostic the analysis emits is an
  error, and the entries that were there before are kept. Warnings do not cause a false
  return.
\<close>

theorem analyze_success:
  assumes "analyze k ds cfg astRoot errors = Some (success, errors')"
  shows "\<exists>emitted. errors' = errors @ emitted \<and>
     (\<forall>e \<in> set emitted. errorType e = TypeError) \<and>
     success = containsOnlyWarnings errors' \<and>
     success = (containsOnlyWarnings errors \<and> emitted = [])"
proof -
  from assms have acc: "accept k ds cfg astRoot errors = Some errors'"
    and success: "success = containsOnlyWarnings errors'"
    by (auto simp add: analyze_def split: option.splits)
  from acc obtain emitted where emitted: "accept k ds cfg astRoot [] = Some emitted"
    and errors': "errors' = errors @ emitted"
    using accept_appends [of k ds cfg astRoot errors] by auto
  have type: "\<forall>e \<in> set emitted. errorType e = TypeError"
    using accept_type [OF emitted] by blast
  then have "containsOnlyWarnings emitted \<longleftrightarrow> emitted = []"
    by (cases emitted) (auto simp add: containsOnlyWarnings_def)
  then have "success = (containsOnlyWarnings errors \<and> emitted = [])"
    using success errors' by (auto simp add: containsOnlyWarnings_def)
  with errors' type success show ?thesis by blast
qed

theorem analyze_success_witness:
  "analyze exKindOrdinal exDecls cfgAssigned [funMixed, funAbstract] [priorWarning] =
     Some (True, [priorWarning]) \<and>
   containsOnlyWarnings [priorWarning] \<and>
   analyze exKindOrdinal exDecls cfgMixed [funMixed] [priorWarning] =
     Some (False, [priorWarning] @ reportAccess exDecls (occ Access 1) [] @
                    reportAccess exDecls (occAt Access 1 30) [])"
proof -
  have run1: "analyze exKindOrdinal exDecls cfgAssigned [funMixed, funAbstract] [priorWarning] =
     Some (True, [priorWarning])"
    by (simp add: analyze_def visit_def funMixed_def funAbstract_def
        checkUninitializedAccess_def containsOnlyWarnings_def priorWarning_def
        traverse.simps iteration_def visitNode_def cfgAssigned_def block_def
        occ_def occAt_def exDecls_def infoAt_def emptyNodeInfo_def applyOccurrence_def
        propagateFrom_def Let_def fcard_finsert_if reportedOccurrences_def)
  have run2: "analyze exKindOrdinal exDecls cfgMixed [funMixed] [priorWarning] =
     Some (False, [priorWarning] @ reportAccess exDecls (occ Access 1) [] @
                    reportAccess exDecls (occAt Access 1 30) [])"
    by (simp add: analyze_def visit_def funMixed_def
        checkUninitializedAccess_def containsOnlyWarnings_def priorWarning_def
        traverse.simps iteration_def visitNode_def cfgMixed_def block_def
        occ_def occAt_def exDecls_def infoAt_def emptyNodeInfo_def applyOccurrence_def
        propagateFrom_def Let_def fcard_finsert_if reportedOccurrences_def
        uninitializedAccessesOrdered_def stdSort_def sorted_list_of_fset.rep_eq
        occurrenceAt_def occurrenceLess_def reportAccess_def typeError_def)
  from analyze_success [OF run1] analyze_success [OF run2] run1 run2
  show ?thesis by (simp add: containsOnlyWarnings_def priorWarning_def)
qed

section \<open>Determinism\<close>

lemma same_key_same_diagnostic:
  assumes "idsIdentify ds a b" "occurrenceKey k ds a = occurrenceKey k ds b"
  shows "reportAccess ds a errors = reportAccess ds b errors"
  using assms
  by (cases "occurrence b") (auto simp add: idsIdentify_def occurrenceKey_def reportAccess_def Let_def)

text \<open>
  Two vectors with the same elements that are both sorted with respect to the comparator
  yield the same diagnostics, when ids identify the syntax nodes and the declarations of
  the occurrences in them.
\<close>

lemma sorted_vectors_same_diagnostics:
  assumes ids: "\<forall>p \<in> set ys. \<forall>q \<in> set ys.
      idsIdentify ds (occurrenceAt cfg p) (occurrenceAt cfg q)"
    and perm: "mset ys = mset zs"
    and ys: "sorted_wrt (\<lambda>a b. \<not> occurrenceLess k ds (occurrenceAt cfg b) (occurrenceAt cfg a)) ys"
    and zs: "sorted_wrt (\<lambda>a b. \<not> occurrenceLess k ds (occurrenceAt cfg b) (occurrenceAt cfg a)) zs"
  shows "reportAll ds cfg ys errors = reportAll ds cfg zs errors"
proof -
  let ?f = "\<lambda>p. occurrenceKey k ds (occurrenceAt cfg p)"
  let ?d = "\<lambda>p. reportAccess ds (occurrenceAt cfg p) []"
  let ?lt = "\<lambda>a b. occurrenceLess k ds (occurrenceAt cfg a) (occurrenceAt cfg b)"
  have key: "occurrenceLess k ds (occurrenceAt cfg a) (occurrenceAt cfg b) \<longleftrightarrow> ?f a < ?f b"
    for a b by (rule occurrenceLess_key)
  have "sorted (map ?f ys)"
    by (rule sorted_wrt_keyD [where lt = ?lt, OF key ys])
  moreover have "sorted (map ?f zs)"
    by (rule sorted_wrt_keyD [where lt = ?lt, OF key zs])
  ultimately have keys: "map ?f ys = map ?f zs"
    using perm by (intro sorted_keys_unique)
  then have len: "length ys = length zs"
    by (rule map_eq_imp_length_eq)
  have set: "set zs = set ys"
    using perm by (rule mset_eq_setD [symmetric])
  have same: "?d (ys ! i) = ?d (zs ! i)" if i: "i < length ys" for i
  proof -
    from i len have y: "ys ! i \<in> set ys" and z: "zs ! i \<in> set ys"
      using set nth_mem [of i ys] nth_mem [of i zs] by simp_all
    have "idsIdentify ds (occurrenceAt cfg (ys ! i)) (occurrenceAt cfg (zs ! i))"
      by (rule bspec [OF bspec [OF ids y] z])
    moreover have "map ?f ys ! i = map ?f zs ! i"
      by (simp only: keys)
    then have "?f (ys ! i) = ?f (zs ! i)"
      using i len by simp
    ultimately show ?thesis
      by (rule same_key_same_diagnostic)
  qed
  have "map ?d ys = map ?d zs"
    by (rule nth_equalityI) (simp_all add: len same)
  then show ?thesis
    unfolding reportAll_append by (rule arg_cong)
qed

text \<open>
  Claim C2: two runs of the analyzer on the same tree and control-flow graph emit the
  same sequence of diagnostics, and a run leaves nothing behind that a later run reads
  except the entries of the reporter, which it only extends. If a run started with the
  reporter \<open>errors1\<close> returns, it has appended a sequence \<open>emitted\<close>, and a run started
  with any reporter \<open>errors2\<close> returns too and appends the same sequence; a second run
  right after the first returns the same flag and appends the same sequence again; if one
  run does not return, neither does the other.
  Moreover the sequence does not depend on the order in which the pointer-keyed set is
  read nor on the choice that sorting leaves open: when ids identify the syntax nodes and
  the declarations of the pending accesses of the exit node, every vector \<open>ys\<close> that holds
  these accesses once each and is sorted with respect to the comparator gives the
  diagnostics that the function emits.
\<close>

theorem analysis_deterministic:
  "(analyze k ds cfg astRoot errors1 = Some (success1, out1) \<longrightarrow>
      (\<exists>emitted. out1 = errors1 @ emitted \<and>
         analyze k ds cfg astRoot errors2 =
           Some (containsOnlyWarnings (errors2 @ emitted), errors2 @ emitted) \<and>
         analyze k ds cfg astRoot out1 = Some (success1, out1 @ emitted))) \<and>
   (analyze k ds cfg astRoot errors1 = None \<longrightarrow> analyze k ds cfg astRoot errors2 = None) \<and>
   (traverse ds cfg (Map.empty, [entry]) = Some nodeInfos \<and>
    (\<forall>p \<in> set ys. \<forall>q \<in> set ys. idsIdentify ds (occurrenceAt cfg p) (occurrenceAt cfg q)) \<and>
    distinct ys \<and> set ys = fset (uninitializedVariableAccesses (infoAt nodeInfos exit)) \<and>
    sorted_wrt (\<lambda>a b. \<not> occurrenceLess k ds (occurrenceAt cfg b) (occurrenceAt cfg a)) ys \<longrightarrow>
    checkUninitializedAccess k ds cfg entry exit errors1 = Some (reportAll ds cfg ys errors1))"
proof (intro conjI impI)
  assume "analyze k ds cfg astRoot errors1 = Some (success1, out1)"
  then have acc: "accept k ds cfg astRoot errors1 = Some out1"
    and success1: "success1 = containsOnlyWarnings out1"
    by (auto simp add: analyze_def split: option.splits)
  from acc obtain emitted where emitted: "accept k ds cfg astRoot [] = Some emitted"
    and out1: "out1 = errors1 @ emitted"
    using accept_appends [of k ds cfg astRoot errors1] by auto
  from emitted have any: "accept k ds cfg astRoot errors = Some (errors @ emitted)" for errors
    using accept_appends [of k ds cfg astRoot errors] by simp
  have "containsOnlyWarnings (out1 @ emitted) = containsOnlyWarnings out1"
    using out1 by (auto simp add: containsOnlyWarnings_def)
  with success1 have "analyze k ds cfg astRoot out1 = Some (success1, out1 @ emitted)"
    using any [of out1] by (simp add: analyze_def)
  moreover have "analyze k ds cfg astRoot errors2 =
      Some (containsOnlyWarnings (errors2 @ emitted), errors2 @ emitted)"
    using any [of errors2] by (simp add: analyze_def)
  ultimately show "\<exists>emitted. out1 = errors1 @ emitted \<and>
         analyze k ds cfg astRoot errors2 =
           Some (containsOnlyWarnings (errors2 @ emitted), errors2 @ emitted) \<and>
         analyze k ds cfg astRoot out1 = Some (success1, out1 @ emitted)"
    using out1 by blast
next
  assume "analyze k ds cfg astRoot errors1 = None"
  then have "accept k ds cfg astRoot errors1 = None"
    by (auto simp add: analyze_def split: option.splits)
  then have "accept k ds cfg astRoot [] = None"
    using accept_appends [of k ds cfg astRoot errors1] by simp
  then have "accept k ds cfg astRoot errors2 = None"
    using accept_appends [of k ds cfg astRoot errors2] by simp
  then show "analyze k ds cfg astRoot errors2 = None"
    by (simp add: analyze_def)
next
  assume a: "traverse ds cfg (Map.empty, [entry]) = Some nodeInfos \<and>
    (\<forall>p \<in> set ys. \<forall>q \<in> set ys. idsIdentify ds (occurrenceAt cfg p) (occurrenceAt cfg q)) \<and>
    distinct ys \<and> set ys = fset (uninitializedVariableAccesses (infoAt nodeInfos exit)) \<and>
    sorted_wrt (\<lambda>a b. \<not> occurrenceLess k ds (occurrenceAt cfg b) (occurrenceAt cfg a)) ys"
  then have run: "traverse ds cfg (Map.empty, [entry]) = Some nodeInfos"
    and ids: "\<forall>p \<in> set ys. \<forall>q \<in> set ys.
      idsIdentify ds (occurrenceAt cfg p) (occurrenceAt cfg q)"
    and distinct: "distinct ys"
    and set: "set ys = fset (uninitializedVariableAccesses (infoAt nodeInfos exit))"
    and sorted: "sorted_wrt
      (\<lambda>a b. \<not> occurrenceLess k ds (occurrenceAt cfg b) (occurrenceAt cfg a)) ys"
    by blast+
  let ?zs = "reportedOccurrences k ds cfg exit nodeInfos"
  from set have "set ys = set ?zs"
    by (simp add: set_reportedOccurrences)
  with distinct have perm: "mset ys = mset ?zs"
    using distinct_reportedOccurrences [of k ds cfg exit nodeInfos]
    by (metis set_eq_iff_mset_eq_distinct)
  have "reportAll ds cfg ys errors1 = reportAll ds cfg ?zs errors1"
    using ids perm sorted reportedOccurrences_sorted [of k ds cfg exit nodeInfos]
    by (rule sorted_vectors_same_diagnostics)
  with run show "checkUninitializedAccess k ds cfg entry exit errors1 =
      Some (reportAll ds cfg ys errors1)"
    by (simp add: checkUninitializedAccess_def)
qed

theorem analysis_deterministic_witness:
  "analyze exKindOrdinal exDecls cfgMixed [funMixed] [] =
     Some (False, reportAccess exDecls (occ Access 1) [] @
                  reportAccess exDecls (occAt Access 1 30) []) \<and>
   analyze exKindOrdinal exDecls cfgMixed [funMixed]
       (reportAccess exDecls (occ Access 1) [] @ reportAccess exDecls (occAt Access 1 30) []) =
     Some (False,
       (reportAccess exDecls (occ Access 1) [] @ reportAccess exDecls (occAt Access 1 30) []) @
       (reportAccess exDecls (occ Access 1) [] @ reportAccess exDecls (occAt Access 1 30) [])) \<and>
   map_option (\<lambda>m. uninitializedVariableAccesses (infoAt m 1))
     (traverse exDecls cfgMixed (Map.empty, [0])) = Some {|(0, 2), (0, 1)|} \<and>
   checkUninitializedAccess exKindOrdinal exDecls cfgMixed 0 1 [] =
     Some (reportAll exDecls cfgMixed [(0, 2), (0, 1)] [])"
proof -
  let ?E = "reportAccess exDecls (occ Access 1) [] @ reportAccess exDecls (occAt Access 1 30) []"
  have run1: "analyze exKindOrdinal exDecls cfgMixed [funMixed] [] = Some (False, ?E)"
    by (simp add: analyze_def visit_def funMixed_def
        checkUninitializedAccess_def containsOnlyWarnings_def
        traverse.simps iteration_def visitNode_def cfgMixed_def block_def
        occ_def occAt_def exDecls_def infoAt_def emptyNodeInfo_def applyOccurrence_def
        propagateFrom_def Let_def fcard_finsert_if reportedOccurrences_def
        uninitializedAccessesOrdered_def stdSort_def sorted_list_of_fset.rep_eq
        occurrenceAt_def occurrenceLess_def reportAccess_def typeError_def)
  have pending: "map_option (\<lambda>m. uninitializedVariableAccesses (infoAt m 1))
     (traverse exDecls cfgMixed (Map.empty, [0])) = Some {|(0, 2), (0, 1)|}"
    by (simp add: traverse.simps iteration_def visitNode_def cfgMixed_def block_def
        occ_def occAt_def exDecls_def infoAt_def emptyNodeInfo_def applyOccurrence_def
        propagateFrom_def Let_def fcard_finsert_if numeral_2_eq_2)
  then obtain m where m: "traverse exDecls cfgMixed (Map.empty, [0]) = Some m"
    and S: "uninitializedVariableAccesses (infoAt m 1) = {|(0, 2), (0, 1)|}"
    by auto
  have ids: "\<forall>p \<in> set [(0, 2), (0, 1)]. \<forall>q \<in> set [(0, 2), (0, 1)].
      idsIdentify exDecls (occurrenceAt cfgMixed p) (occurrenceAt cfgMixed q)"
    by (simp add: idsIdentify_def occurrenceAt_def cfgMixed_def block_def occ_def occAt_def)
  have sorted: "sorted_wrt (\<lambda>a b. \<not> occurrenceLess exKindOrdinal exDecls
      (occurrenceAt cfgMixed b) (occurrenceAt cfgMixed a)) [(0, 2), (0, 1)]"
    by (simp add: occurrenceLess_def occurrenceAt_def cfgMixed_def block_def occ_def occAt_def)
  have set: "distinct [(0::nat, 2::nat), (0, 1)] \<and>
      set [(0, 2), (0, 1)] = fset (uninitializedVariableAccesses (infoAt m 1))"
    using S by simp
  note det = analysis_deterministic [of exKindOrdinal exDecls cfgMixed "[funMixed]" "[]" False ?E
      ?E 0 m "[(0, 2), (0, 1)]" 1]
  from det run1 obtain emitted where "?E = [] @ emitted"
    and "analyze exKindOrdinal exDecls cfgMixed [funMixed] ?E = Some (False, ?E @ emitted)"
    by blast
  then have run2: "analyze exKindOrdinal exDecls cfgMixed [funMixed] ?E = Some (False, ?E @ ?E)"
    by simp
  from det m ids sorted set
  have "checkUninitializedAccess exKindOrdinal exDecls cfgMixed 0 1 [] =
     Some (reportAll exDecls cfgMixed [(0, 2), (0, 1)] [])"
    by blast
  with run1 run2 pending show ?thesis
    by blast
qed

end
